theory Spec2Isabelle
  imports Complex_Main "HOL-Library.Sublist"
begin

section \<open>Speaker-transcript fusion: a shallow embedding of meetai\<close>

text \<open>
  The development embeds \<^verbatim>\<open>buildspeakertraans.py\<close> and \<^verbatim>\<open>speakerrecogniser.py\<close>.
  Conventions of the embedding:
  \<^item> a Python \<^verbatim>\<open>str\<close> is the list of its code points (\<open>ustr\<close>);
  \<^item> a Python \<^verbatim>\<open>float\<close> is read as the real number it denotes (infinities and NaN are
    outside the model); the sum \<^verbatim>\<open>start + dur\<close> of \<^verbatim>\<open>load_rttm\<close>, which rounds, is a
    parameter;
  \<^item> a \<^verbatim>\<open>dict\<close> is an association list in insertion order, which is the order Python
    iterates it in;
  \<^item> \<^verbatim>\<open>sys.exit\<close> and uncaught exceptions are values of the type \<open>error\<close>, returned as
    \<open>Inl\<close>.
\<close>

subsection \<open>Strings and errors\<close>

type_synonym ustr = "nat list"

definition ustr :: "string \<Rightarrow> ustr" where
  "ustr s = map of_char s"

text \<open>
  \<open>SystemExit msg\<close> is the effect of \<^verbatim>\<open>fail(msg)\<close>: the message is printed and the process
  leaves with status 1. \<open>ValueError\<close> is Python's exception of that name, uncaught;
  \<open>EmbedderError\<close> stands for any exception of the external embedding network.
\<close>

datatype error = SystemExit string | ValueError | EmbedderError

subsection \<open>Attribution by overlap: \<^verbatim>\<open>find_speaker\<close>\<close>

type_synonym interval = "real \<times> real"
type_synonym segments = "(ustr \<times> interval list) list"

definition UNKNOWN :: ustr where
  "UNKNOWN = ustr ''UNKNOWN''"

text \<open>The inner loop \<^verbatim>\<open>for s, e in segs\<close>; the pair is \<^verbatim>\<open>(best_spk, best_overlap)\<close>.\<close>

fun find_speaker_segs :: "real \<Rightarrow> real \<Rightarrow> ustr \<Rightarrow> interval list \<Rightarrow> ustr \<times> real \<Rightarrow> ustr \<times> real" where
  "find_speaker_segs start end' spk [] best = best"
| "find_speaker_segs start end' spk ((s, e) # segs) (best_spk, best_overlap) =
     (let overlap = min end' e - max start s in
      if overlap > best_overlap \<and> overlap > 0
      then find_speaker_segs start end' spk segs (spk, overlap)
      else find_speaker_segs start end' spk segs (best_spk, best_overlap))"

text \<open>The outer loop \<^verbatim>\<open>for spk, segs in diar_segments.items()\<close>.\<close>

fun find_speaker_items :: "real \<Rightarrow> real \<Rightarrow> segments \<Rightarrow> ustr \<times> real \<Rightarrow> ustr \<times> real" where
  "find_speaker_items start end' [] best = best"
| "find_speaker_items start end' ((spk, segs) # items) best =
     find_speaker_items start end' items (find_speaker_segs start end' spk segs best)"

definition find_speaker :: "real \<Rightarrow> real \<Rightarrow> segments \<Rightarrow> ustr" where
  "find_speaker start end' diar_segments =
     fst (find_speaker_items start end' diar_segments (UNKNOWN, 0))"


subsection \<open>The matcher: \<^verbatim>\<open>identify_speaker\<close>\<close>

definition THRESHOLD :: real where
  "THRESHOLD = 0.70"

definition Unknown :: ustr where
  "Unknown = ustr ''Unknown''"

text \<open>
  The loop \<^verbatim>\<open>for name, ref_emb in SPEAKERS.items()\<close>; the pair is
  \<^verbatim>\<open>(best_name, best_score)\<close>. The distance function \<open>cosine\<close> is a parameter: it is
  \<^verbatim>\<open>scipy.spatial.distance.cosine\<close> in the source.
\<close>

fun identify_loop :: "('e \<Rightarrow> 'e \<Rightarrow> real) \<Rightarrow> 'e \<Rightarrow> (ustr \<times> 'e) list \<Rightarrow> ustr \<times> real \<Rightarrow> ustr \<times> real" where
  "identify_loop cosine emb [] best = best"
| "identify_loop cosine emb ((name, ref_emb) # items) (best_name, best_score) =
     (let score = cosine emb ref_emb in
      if score < best_score
      then identify_loop cosine emb items (name, score)
      else identify_loop cosine emb items (best_name, best_score))"

text \<open>
  \<open>classifier\<close> is the embedding network (\<^verbatim>\<open>classifier.encode_batch\<close> with the tensor
  plumbing around it): a parameter that may raise. \<open>SPEAKERS\<close> is the enrollment
  dictionary loaded from the pickle file.
\<close>

definition identify_speaker ::
  "('a \<Rightarrow> error + 'e) \<Rightarrow> ('e \<Rightarrow> 'e \<Rightarrow> real) \<Rightarrow> (ustr \<times> 'e) list \<Rightarrow> 'a \<Rightarrow> error + ustr \<times> real" where
  "identify_speaker classifier cosine SPEAKERS audio_np =
     (case classifier audio_np of
        Inl err \<Rightarrow> Inl err
      | Inr emb \<Rightarrow>
          (case identify_loop cosine emb SPEAKERS (Unknown, 1.0) of
             (best_name, best_score) \<Rightarrow>
               if best_score > THRESHOLD then Inr (Unknown, best_score)
               else Inr (best_name, best_score)))"

text \<open>
  Modelled from the spec: the cosine distance of the library, \<open>1 - cosine similarity\<close>, on
  vectors of reals. It instantiates the parameter \<open>cosine\<close> at concrete inputs.
\<close>

definition dot :: "real list \<Rightarrow> real list \<Rightarrow> real" where
  "dot u v = sum_list (map2 (*) u v)"

definition cosine_distance :: "real list \<Rightarrow> real list \<Rightarrow> real" where
  "cosine_distance u v = 1 - dot u v / sqrt (dot u u * dot v v)"

subsection \<open>Enrollment resolution: \<^verbatim>\<open>build_speaker_name_map\<close>\<close>

definition SAMPLE_RATE :: int where
  "SAMPLE_RATE = 16000"

text \<open>\<^verbatim>\<open>int(x)\<close> on a float truncates towards zero.\<close>

definition py_int :: "real \<Rightarrow> int" where
  "py_int x = (if 0 \<le> x then \<lfloor>x\<rfloor> else \<lceil>x\<rceil>)"

text \<open>
  \<^verbatim>\<open>audio[s:e]\<close> on a one-dimensional array of \<open>n\<close> samples: a negative bound counts from
  the end, either bound is clamped to \<open>0..n\<close>, and the slice is empty when the bounds
  cross.
\<close>

definition slice_index :: "nat \<Rightarrow> int \<Rightarrow> nat" where
  "slice_index n i = (if i < 0 then nat (max 0 (int n + i)) else min n (nat i))"

definition py_slice :: "'a list \<Rightarrow> int \<Rightarrow> int \<Rightarrow> 'a list" where
  "py_slice xs s e =
     (let lo = slice_index (length xs) s; hi = slice_index (length xs) e
      in take (hi - lo) (drop lo xs))"

text \<open>
  The loop \<^verbatim>\<open>for start, end in times\<close> with its \<^verbatim>\<open>break\<close>; the state is the list
  \<^verbatim>\<open>samples\<close>.
\<close>

fun accumulate :: "'a list \<Rightarrow> interval list \<Rightarrow> 'a list list \<Rightarrow> 'a list list" where
  "accumulate audio [] samples = samples"
| "accumulate audio ((start, end') # times') samples =
     (let s = py_int (start * of_int SAMPLE_RATE);
          e = py_int (end' * of_int SAMPLE_RATE);
          samples' = samples @ [py_slice audio s e]
      in if int (sum_list (map length samples')) > SAMPLE_RATE * 15 then samples'
         else accumulate audio times' samples')"

text \<open>\<^verbatim>\<open>np.concatenate\<close> raises \<^verbatim>\<open>ValueError\<close> on an empty list of arrays.\<close>

definition np_concatenate :: "'a list list \<Rightarrow> error + 'a list" where
  "np_concatenate arrays = (if arrays = [] then Inl ValueError else Inr (concat arrays))"

text \<open>\<^verbatim>\<open>d[k] = v\<close> on a dictionary kept in insertion order.\<close>

fun dict_set :: "('k \<times> 'v) list \<Rightarrow> 'k \<Rightarrow> 'v \<Rightarrow> ('k \<times> 'v) list" where
  "dict_set [] k v = [(k, v)]"
| "dict_set ((k', v') # d) k v = (if k' = k then (k, v) # d else (k', v') # dict_set d k v)"

text \<open>\<^verbatim>\<open>d.get(k, default)\<close>.\<close>

definition dict_get :: "('k \<times> 'v) list \<Rightarrow> 'k \<Rightarrow> 'v \<Rightarrow> 'v" where
  "dict_get d k dflt = (case map_of d k of None \<Rightarrow> dflt | Some v \<Rightarrow> v)"

text \<open>
  The loop \<^verbatim>\<open>for spk, times in diar_segments.items()\<close>; the state is \<^verbatim>\<open>speaker_map\<close>.
  An exception of \<^verbatim>\<open>np.concatenate\<close> or of \<^verbatim>\<open>identify_speaker\<close> is not caught, so it
  ends the loop. The progress line printed for each label is not modelled.
\<close>

fun build_speaker_name_map_items ::
  "('a list \<Rightarrow> error + 'e) \<Rightarrow> ('e \<Rightarrow> 'e \<Rightarrow> real) \<Rightarrow> (ustr \<times> 'e) list \<Rightarrow> 'a list \<Rightarrow>
   segments \<Rightarrow> (ustr \<times> ustr) list \<Rightarrow> error + (ustr \<times> ustr) list" where
  "build_speaker_name_map_items classifier cosine SPEAKERS audio [] speaker_map = Inr speaker_map"
| "build_speaker_name_map_items classifier cosine SPEAKERS audio ((spk, times') # items) speaker_map =
     (case np_concatenate (accumulate audio times' []) of
        Inl err \<Rightarrow> Inl err
      | Inr clip \<Rightarrow>
          (case identify_speaker classifier cosine SPEAKERS clip of
             Inl err \<Rightarrow> Inl err
           | Inr (name, score) \<Rightarrow>
               build_speaker_name_map_items classifier cosine SPEAKERS audio items
                 (dict_set speaker_map spk name)))"

definition build_speaker_name_map ::
  "('a list \<Rightarrow> error + 'e) \<Rightarrow> ('e \<Rightarrow> 'e \<Rightarrow> real) \<Rightarrow> (ustr \<times> 'e) list \<Rightarrow> 'a list \<Rightarrow>
   segments \<Rightarrow> error + (ustr \<times> ustr) list" where
  "build_speaker_name_map classifier cosine SPEAKERS audio diar_segments =
     build_speaker_name_map_items classifier cosine SPEAKERS audio diar_segments []"

subsection \<open>Characters\<close>

text \<open>
  The white space of \<^verbatim>\<open>str.strip\<close>, \<^verbatim>\<open>str.split\<close> and the pattern's \<^verbatim>\<open>\s\<close>: the code
  points on which \<^verbatim>\<open>str.isspace\<close> holds.
\<close>

definition py_isspace :: "nat \<Rightarrow> bool" where
  "py_isspace c \<longleftrightarrow> c \<in> set [9, 10, 11, 12, 13, 28, 29, 30, 31, 32, 133, 160, 5760,
     8192, 8193, 8194, 8195, 8196, 8197, 8198, 8199, 8200, 8201, 8202,
     8232, 8233, 8239, 8287, 12288]"

text \<open>
  The decimal digits of the pattern's \<^verbatim>\<open>\d\<close> (Unicode category Nd, version 14.0): each
  entry is the code point of a digit zero, followed by the digits one to nine.
\<close>

definition digit_zeros :: "nat list" where
  "digit_zeros = [48, 1632, 1776, 1984, 2406, 2534, 2662, 2790, 2918, 3046, 3174, 3302,
     3430, 3558, 3664, 3792, 3872, 4160, 4240, 6112, 6160, 6470, 6608, 6784, 6800, 6992,
     7088, 7232, 7248, 42528, 43216, 43264, 43472, 43504, 43600, 44016, 65296, 66720,
     68912, 69734, 69872, 69942, 70096, 70384, 70736, 70864, 71248, 71360, 71472, 71904,
     72016, 72784, 73040, 73120, 92768, 92864, 93008, 120782, 120792, 120802, 120812,
     120822, 123200, 123632, 125264, 130032]"

definition py_isdecimal :: "nat \<Rightarrow> bool" where
  "py_isdecimal c \<longleftrightarrow> list_ex (\<lambda>z. z \<le> c \<and> c < z + 10) digit_zeros"

definition digit_value :: "nat \<Rightarrow> nat" where
  "digit_value c = (case filter (\<lambda>z. z \<le> c \<and> c < z + 10) digit_zeros of
                      [] \<Rightarrow> 0 | z # _ \<Rightarrow> c - z)"

text \<open>\<^verbatim>\<open>s.strip()\<close>.\<close>

definition py_strip :: "ustr \<Rightarrow> ustr" where
  "py_strip s = rev (dropWhile py_isspace (rev (dropWhile py_isspace s)))"

text \<open>
  \<^verbatim>\<open>s.split()\<close>: the maximal runs of characters that are not white space; \<open>w\<close> is the
  run being read.
\<close>

fun split_words :: "ustr \<Rightarrow> ustr \<Rightarrow> ustr list" where
  "split_words w [] = (if w = [] then [] else [w])"
| "split_words w (c # cs) =
     (if py_isspace c then (if w = [] then split_words [] cs else w # split_words [] cs)
      else split_words (w @ [c]) cs)"

definition py_split :: "ustr \<Rightarrow> ustr list" where
  "py_split s = split_words [] s"

subsection \<open>Diarization records: \<^verbatim>\<open>load_rttm\<close>\<close>

text \<open>
  \<^verbatim>\<open>segments[speaker].append(v)\<close> on a \<^verbatim>\<open>defaultdict(list)\<close>: a new label goes to the end
  of the dictionary.
\<close>

fun defaultdict_append :: "segments \<Rightarrow> ustr \<Rightarrow> interval \<Rightarrow> segments" where
  "defaultdict_append [] speaker v = [(speaker, [v])]"
| "defaultdict_append ((k, vs) # d) speaker v =
     (if k = speaker then (k, vs @ [v]) # d else (k, vs) # defaultdict_append d speaker v)"

text \<open>
  The loop \<^verbatim>\<open>for line in f\<close>; the state is \<^verbatim>\<open>segments\<close>. The file is the list of its
  lines. \<open>py_float\<close> is the builtin \<^verbatim>\<open>float\<close> on the fields of a record, a parameter: it
  raises \<^verbatim>\<open>ValueError\<close> on a string that is not a number, and the exception is not caught.
  \<open>float_add\<close> is the addition of two floats in \<^verbatim>\<open>start + dur\<close>, a parameter as well: it
  rounds its result, so it is not the sum of the two reals, and a small duration can
  leave a large start unchanged.
\<close>

fun load_rttm_lines ::
  "(ustr \<Rightarrow> error + real) \<Rightarrow> (real \<Rightarrow> real \<Rightarrow> real) \<Rightarrow> ustr list \<Rightarrow> segments \<Rightarrow> error + segments" where
  "load_rttm_lines py_float float_add [] segments = Inr segments"
| "load_rttm_lines py_float float_add (line # lines) segments =
     (let p = py_split (py_strip line) in
      if length p < 8 then load_rttm_lines py_float float_add lines segments
      else
        (case py_float (p ! 3) of
           Inl err \<Rightarrow> Inl err
         | Inr start \<Rightarrow>
             (case py_float (p ! 4) of
                Inl err \<Rightarrow> Inl err
              | Inr dur \<Rightarrow>
                  load_rttm_lines py_float float_add lines
                    (defaultdict_append segments (p ! 7) (start, float_add start dur)))))"

definition load_rttm ::
  "(ustr \<Rightarrow> error + real) \<Rightarrow> (real \<Rightarrow> real \<Rightarrow> real) \<Rightarrow> ustr list \<Rightarrow> error + segments" where
  "load_rttm py_float float_add lines =
     (case load_rttm_lines py_float float_add lines [] of
        Inl err \<Rightarrow> Inl err
      | Inr segments \<Rightarrow>
          if segments = [] then Inl (SystemExit ''No diarization segments found'')
          else Inr segments)"

subsection \<open>The transcript pattern\<close>

text \<open>
  Regular expressions as far as the pattern of \<^verbatim>\<open>load_transcript\<close> needs them: a literal
  string, a greedy \<open>*\<close> and \<open>+\<close> on a character class, a greedy \<open>?\<close> on a character,
  alternation, sequence and a capturing group.
\<close>

datatype cls = Space | Digit | Dot

fun cls_match :: "cls \<Rightarrow> nat \<Rightarrow> bool" where
  "cls_match Space c = py_isspace c"
| "cls_match Digit c = py_isdecimal c"
| "cls_match Dot c = (c \<noteq> 10)"

datatype rx = RLit ustr | RStar cls | RPlus cls | ROpt nat | RAlt rx rx | RSeq rx rx | RGrp rx

text \<open>
  A backtracking matcher explores the ways to match in a fixed order of preference.
  \<open>rx_match r s\<close> lists them in that order, each as the groups captured and the input
  left over. \<open>star_rests c s\<close> are the inputs left by \<open>c*\<close>, longest match first.
\<close>

fun star_rests :: "cls \<Rightarrow> ustr \<Rightarrow> ustr list" where
  "star_rests c [] = [[]]"
| "star_rests c (x # xs) = (if cls_match c x then star_rests c xs @ [x # xs] else [x # xs])"

fun rx_match :: "rx \<Rightarrow> ustr \<Rightarrow> (ustr list \<times> ustr) list" where
  "rx_match (RLit l) s = (if take (length l) s = l then [([], drop (length l) s)] else [])"
| "rx_match (RStar c) s = map (\<lambda>r. ([], r)) (star_rests c s)"
| "rx_match (RPlus c) s =
     (case s of
        [] \<Rightarrow> []
      | x # xs \<Rightarrow> if cls_match c x then map (\<lambda>r. ([], r)) (star_rests c xs) else [])"
| "rx_match (ROpt ch) s =
     (case s of
        [] \<Rightarrow> [([], [])]
      | x # xs \<Rightarrow> if x = ch then [([], xs), ([], s)] else [([], s)])"
| "rx_match (RAlt a b) s = rx_match a s @ rx_match b s"
| "rx_match (RSeq a b) s =
     concat (map (\<lambda>(g1, r1). map (\<lambda>(g2, r2). (g1 @ g2, r2)) (rx_match b r1)) (rx_match a s))"
| "rx_match (RGrp a) s =
     map (\<lambda>(g, r). (take (length s - length r) s # g, r)) (rx_match a s)"

text \<open>\<^verbatim>\<open>pattern.match(s)\<close>: the preferred match at the start of \<open>s\<close>, as its groups.\<close>

definition re_match :: "rx \<Rightarrow> ustr \<Rightarrow> ustr list option" where
  "re_match r s = (case rx_match r s of [] \<Rightarrow> None | (groups, rest) # _ \<Rightarrow> Some groups)"

text \<open>\<^verbatim>\<open>\d+\.?\d*\<close>\<close>

definition number :: rx where
  "number = RSeq (RPlus Digit) (RSeq (ROpt 46) (RStar Digit))"

text \<open>\<^verbatim>\<open>(?:\u2192|->|\u2013|-)\<close>: the arrow U+2192, \<^verbatim>\<open>->\<close>, the en dash U+2013, \<^verbatim>\<open>-\<close>.\<close>

definition arrow :: rx where
  "arrow = RAlt (RLit [8594]) (RAlt (RLit (ustr ''->'')) (RAlt (RLit [8211]) (RLit (ustr ''-''))))"

text \<open>\<^verbatim>\<open>\[\s*(\d+\.?\d*)\s*(?:\u2192|->|\u2013|-)\s*(\d+\.?\d*)\s*\]\s*(.+)\<close>\<close>

definition pattern :: rx where
  "pattern =
     RSeq (RLit (ustr ''[''))
    (RSeq (RStar Space)
    (RSeq (RGrp number)
    (RSeq (RStar Space)
    (RSeq arrow
    (RSeq (RStar Space)
    (RSeq (RGrp number)
    (RSeq (RStar Space)
    (RSeq (RLit (ustr '']''))
    (RSeq (RStar Space)
          (RGrp (RPlus Dot)))))))))))"

subsection \<open>Transcript records: \<^verbatim>\<open>load_transcript\<close>\<close>

text \<open>
  \<^verbatim>\<open>float\<close> on a string that a group \<^verbatim>\<open>\d+\.?\d*\<close> matched: it cannot fail there, and
  its value is the decimal number written.
\<close>

definition digits_value :: "ustr \<Rightarrow> nat" where
  "digits_value ds = foldl (\<lambda>n c. 10 * n + digit_value c) 0 ds"

definition float_of_number :: "ustr \<Rightarrow> real" where
  "float_of_number s =
     (let whole = takeWhile py_isdecimal s;
          frac_digits = drop 1 (dropWhile py_isdecimal s)
      in real (digits_value whole) + real (digits_value frac_digits) / 10 ^ length frac_digits)"

text \<open>The dictionary with the keys \<^verbatim>\<open>start\<close>, \<^verbatim>\<open>end\<close> and \<^verbatim>\<open>text\<close>.\<close>

record chunk =
  c_start :: real
  c_end :: real
  c_text :: ustr

text \<open>The body of the loop: the chunk of a line, if the line matches.\<close>

definition parse_chunk :: "ustr \<Rightarrow> chunk option" where
  "parse_chunk line =
     (case re_match pattern (py_strip line) of
        None \<Rightarrow> None
      | Some m \<Rightarrow>
          Some \<lparr>c_start = float_of_number (m ! 0), c_end = float_of_number (m ! 1),
                c_text = m ! 2\<rparr>)"

fun load_transcript_lines :: "ustr list \<Rightarrow> chunk list \<Rightarrow> chunk list" where
  "load_transcript_lines [] chunks = chunks"
| "load_transcript_lines (line # lines) chunks =
     (case parse_chunk line of
        None \<Rightarrow> load_transcript_lines lines chunks
      | Some c \<Rightarrow> load_transcript_lines lines (chunks @ [c]))"

definition load_transcript :: "ustr list \<Rightarrow> error + chunk list" where
  "load_transcript lines =
     (let chunks = load_transcript_lines lines [] in
      if chunks = [] then Inl (SystemExit ''No transcript segments parsed'') else Inr chunks)"

subsection \<open>Fusion: \<^verbatim>\<open>main\<close>\<close>

text \<open>
  \<^verbatim>\<open>f"{x:.2f}"\<close>: the decimal expansion of \<open>x\<close> rounded to two places, ties to even, with
  a minus sign for a negative \<open>x\<close>.
\<close>

definition round_half_even :: "real \<Rightarrow> int" where
  "round_half_even y =
     (let f = \<lfloor>y\<rfloor>; d = y - of_int f
      in if d < 1 / 2 then f else if d > 1 / 2 then f + 1 else if even f then f else f + 1)"

fun nat_digits :: "nat \<Rightarrow> ustr" where
  "nat_digits n = (if n < 10 then [48 + n] else nat_digits (n div 10) @ [48 + n mod 10])"

declare nat_digits.simps [simp del]

definition format_2f :: "real \<Rightarrow> ustr" where
  "format_2f x =
     (let n = nat (round_half_even (\<bar>x\<bar> * 100))
      in (if x < 0 then ustr ''-'' else []) @ nat_digits (n div 100)
           @ [46, 48 + n mod 100 div 10, 48 + n mod 10])"

text \<open>The line of one utterance; the separator of the two times is the en dash U+2013.\<close>

definition fused_line :: "chunk \<Rightarrow> ustr \<Rightarrow> ustr" where
  "fused_line t spk_name =
     ustr ''['' @ format_2f (c_start t) @ [8211] @ format_2f (c_end t) @ ustr ''] ''
       @ spk_name @ ustr '': '' @ c_text t"

text \<open>The loop \<^verbatim>\<open>for t in transcript\<close>; the state is \<^verbatim>\<open>lines\<close>.\<close>

fun main_lines :: "chunk list \<Rightarrow> segments \<Rightarrow> (ustr \<times> ustr) list \<Rightarrow> ustr list \<Rightarrow> ustr list" where
  "main_lines [] diar_segments speaker_name_map lines = lines"
| "main_lines (t # transcript) diar_segments speaker_name_map lines =
     (let spk_id = find_speaker (c_start t) (c_end t) diar_segments;
          spk_name = dict_get speaker_name_map spk_id spk_id
      in main_lines transcript diar_segments speaker_name_map (lines @ [fused_line t spk_name]))"

text \<open>
  \<open>main\<close> on the lines of the two input files and on the audio with its sample rate, as
  \<^verbatim>\<open>sf.read\<close> returns them. The result is the list \<^verbatim>\<open>lines\<close> that is written to the output
  file, or the error that ended the run.
\<close>

definition main ::
  "(ustr \<Rightarrow> error + real) \<Rightarrow> (real \<Rightarrow> real \<Rightarrow> real) \<Rightarrow> ('a list \<Rightarrow> error + 'e) \<Rightarrow>
   ('e \<Rightarrow> 'e \<Rightarrow> real) \<Rightarrow> (ustr \<times> 'e) list \<Rightarrow>
   ustr list \<Rightarrow> ustr list \<Rightarrow> 'a list \<Rightarrow> int \<Rightarrow> error + ustr list" where
  "main py_float float_add classifier cosine SPEAKERS rttm_lines transcript_lines audio sr =
     (case load_rttm py_float float_add rttm_lines of
        Inl err \<Rightarrow> Inl err
      | Inr diar_segments \<Rightarrow>
          (case load_transcript transcript_lines of
             Inl err \<Rightarrow> Inl err
           | Inr transcript \<Rightarrow>
               if sr \<noteq> SAMPLE_RATE then Inl (SystemExit ''Audio must be 16kHz'')
               else
                 (case build_speaker_name_map classifier cosine SPEAKERS audio diar_segments of
                    Inl err \<Rightarrow> Inl err
                  | Inr speaker_name_map \<Rightarrow>
                      Inr (main_lines transcript diar_segments speaker_name_map []))))"
subsection \<open>Properties of attribution\<close>

text \<open>
  For the statement of the attribution property: every interval of every label, in
  iteration order, with its label and its overlap with the utterance.
\<close>

definition overlaps :: "real \<Rightarrow> real \<Rightarrow> segments \<Rightarrow> (ustr \<times> real) list" where
  "overlaps start end' diar_segments =
     concat (map (\<lambda>(spk, segs). map (\<lambda>(s, e). (spk, min end' e - max start s)) segs)
       diar_segments)"

text \<open>One step of either loop, on a labelled overlap.\<close>

definition overlap_step :: "ustr \<times> real \<Rightarrow> ustr \<times> real \<Rightarrow> ustr \<times> real" where
  "overlap_step best x = (if snd x > snd best \<and> snd x > 0 then x else best)"

lemma find_speaker_segs_foldl:
  "find_speaker_segs start end' spk segs best =
     foldl overlap_step best (map (\<lambda>(s, e). (spk, min end' e - max start s)) segs)"
proof (induction segs arbitrary: best)
  case Nil
  show ?case by simp
next
  case (Cons a segs)
  obtain s e where a: "a = (s, e)" by (cases a)
  obtain b bo where best: "best = (b, bo)" by (cases best)
  show ?case
    unfolding a best by (simp add: Cons.IH overlap_step_def Let_def)
qed

lemma find_speaker_items_foldl:
  "find_speaker_items start end' items best =
     foldl overlap_step best (overlaps start end' items)"
proof (induction items arbitrary: best)
  case Nil
  show ?case by (simp add: overlaps_def)
next
  case (Cons a items)
  obtain spk segs where a: "a = (spk, segs)" by (cases a)
  have "overlaps start end' (a # items) =
      map (\<lambda>(s, e). (spk, min end' e - max start s)) segs @ overlaps start end' items"
    by (simp add: a overlaps_def)
  then show ?case
    by (simp add: a Cons.IH find_speaker_segs_foldl)
qed

lemma foldl_overlap_step_none:
  "\<forall>x \<in> set xs. snd x \<le> snd best \<or> snd x \<le> 0 \<Longrightarrow> foldl overlap_step best xs = best"
  by (induction xs arbitrary: best) (auto simp: overlap_step_def)

lemma foldl_overlap_step_some:
  assumes "0 \<le> snd best" and "\<exists>x \<in> set xs. snd x > snd best"
  shows "\<exists>i < length xs. foldl overlap_step best xs = xs ! i \<and> snd best < snd (xs ! i)
           \<and> (\<forall>j < length xs. snd (xs ! j) \<le> snd (xs ! i))
           \<and> (\<forall>j < i. snd (xs ! j) < snd (xs ! i))"
  using assms
proof (induction xs arbitrary: best)
  case Nil
  then show ?case by simp
next
  case (Cons x xs)
  show ?case
  proof (cases "snd x > snd best")
    case True
    then have step: "overlap_step best x = x"
      using Cons.prems(1) by (simp add: overlap_step_def)
    show ?thesis
    proof (cases "\<exists>y \<in> set xs. snd y > snd x")
      case False
      then have "foldl overlap_step x xs = x"
        by (intro foldl_overlap_step_none) (auto simp: not_less)
      moreover have "\<forall>j < length (x # xs). snd ((x # xs) ! j) \<le> snd x"
        using False by (auto simp: nth_Cons not_less split: nat.splits)
      ultimately have "foldl overlap_step best (x # xs) = (x # xs) ! 0 \<and> snd best < snd ((x # xs) ! 0)
           \<and> (\<forall>j < length (x # xs). snd ((x # xs) ! j) \<le> snd ((x # xs) ! 0))
           \<and> (\<forall>j < 0. snd ((x # xs) ! j) < snd ((x # xs) ! 0))"
        using True step by simp
      then show ?thesis by blast
    next
      case ex: True
      have "0 \<le> snd x" using True Cons.prems(1) by simp
      from Cons.IH [OF this ex] obtain i where i: "i < length xs"
        "foldl overlap_step x xs = xs ! i" "snd x < snd (xs ! i)"
        "\<forall>j < length xs. snd (xs ! j) \<le> snd (xs ! i)"
        "\<forall>j < i. snd (xs ! j) < snd (xs ! i)"
        by blast
      have "Suc i < length (x # xs)" using i(1) by simp
      moreover have "foldl overlap_step best (x # xs) = (x # xs) ! Suc i"
        using i(2) step by simp
      moreover have "snd best < snd ((x # xs) ! Suc i)"
        using True i(3) by simp
      moreover have "\<forall>j < length (x # xs). snd ((x # xs) ! j) \<le> snd ((x # xs) ! Suc i)"
        using i(3,4) by (auto simp: nth_Cons split: nat.splits)
      moreover have "\<forall>j < Suc i. snd ((x # xs) ! j) < snd ((x # xs) ! Suc i)"
        using i(3,5) by (auto simp: nth_Cons split: nat.splits)
      ultimately show ?thesis by blast
    qed
  next
    case False
    then have step: "overlap_step best x = best"
      by (simp add: overlap_step_def)
    have ex: "\<exists>y \<in> set xs. snd y > snd best"
      using Cons.prems(2) False by auto
    from Cons.IH [OF Cons.prems(1) ex] obtain i where i: "i < length xs"
      "foldl overlap_step best xs = xs ! i" "snd best < snd (xs ! i)"
      "\<forall>j < length xs. snd (xs ! j) \<le> snd (xs ! i)"
      "\<forall>j < i. snd (xs ! j) < snd (xs ! i)"
      by blast
    have "Suc i < length (x # xs)" using i(1) by simp
    moreover have "foldl overlap_step best (x # xs) = (x # xs) ! Suc i"
      using i(2) step by simp
    moreover have "snd best < snd ((x # xs) ! Suc i)"
      using i(3) by simp
    moreover have "\<forall>j < length (x # xs). snd ((x # xs) ! j) \<le> snd ((x # xs) ! Suc i)"
      using i(3,4) False by (auto simp: nth_Cons split: nat.splits)
    moreover have "\<forall>j < Suc i. snd ((x # xs) ! j) < snd ((x # xs) ! Suc i)"
      using i(3,5) False by (auto simp: nth_Cons split: nat.splits)
    ultimately show ?thesis by blast
  qed
qed

text \<open>
  Claim C1. Attribution returns the label of the interval with the largest positive
  overlap among all intervals of all labels; among intervals of equal largest overlap the
  first in iteration order wins (every earlier interval has a strictly smaller overlap);
  when no interval has positive overlap the result is \<open>UNKNOWN\<close>. With \<open>S1 = [0,5)\<close> and
  \<open>S2 = [5,10)\<close>, the utterance \<open>[0,4)\<close> goes to \<open>S1\<close>, the tie of \<open>[4,6)\<close> goes to the
  first-seen \<open>S1\<close>, and \<open>[20,21)\<close> goes to \<open>UNKNOWN\<close>.
\<close>

theorem find_speaker_largest_overlap:
  fixes start end' :: real and diar :: segments
  defines "ov \<equiv> overlaps start end' diar"
  shows "((\<forall>x \<in> set ov. snd x \<le> 0) \<longrightarrow> find_speaker start end' diar = UNKNOWN)
    \<and> ((\<exists>x \<in> set ov. snd x > 0) \<longrightarrow>
         (\<exists>i < length ov. find_speaker start end' diar = fst (ov ! i) \<and> 0 < snd (ov ! i)
            \<and> (\<forall>j < length ov. snd (ov ! j) \<le> snd (ov ! i))
            \<and> (\<forall>j < i. snd (ov ! j) < snd (ov ! i))))
    \<and> find_speaker 0 4 [(ustr ''S1'', [(0, 5)]), (ustr ''S2'', [(5, 10)])] = ustr ''S1''
    \<and> find_speaker 4 6 [(ustr ''S1'', [(0, 5)]), (ustr ''S2'', [(5, 10)])] = ustr ''S1''
    \<and> find_speaker 4 6 [(ustr ''S2'', [(5, 10)]), (ustr ''S1'', [(0, 5)])] = ustr ''S2''
    \<and> find_speaker 20 21 [(ustr ''S1'', [(0, 5)]), (ustr ''S2'', [(5, 10)])] = UNKNOWN"
proof -
  have fs: "find_speaker start end' diar = fst (foldl overlap_step (UNKNOWN, 0) ov)"
    by (simp add: find_speaker_def find_speaker_items_foldl ov_def)
  have none: "(\<forall>x \<in> set ov. snd x \<le> 0) \<longrightarrow> find_speaker start end' diar = UNKNOWN"
  proof
    assume "\<forall>x \<in> set ov. snd x \<le> 0"
    then have "foldl overlap_step (UNKNOWN, 0) ov = (UNKNOWN, 0)"
      by (intro foldl_overlap_step_none) simp
    then show "find_speaker start end' diar = UNKNOWN" by (simp add: fs)
  qed
  have some: "(\<exists>x \<in> set ov. snd x > 0) \<longrightarrow>
         (\<exists>i < length ov. find_speaker start end' diar = fst (ov ! i) \<and> 0 < snd (ov ! i)
            \<and> (\<forall>j < length ov. snd (ov ! j) \<le> snd (ov ! i))
            \<and> (\<forall>j < i. snd (ov ! j) < snd (ov ! i)))"
  proof
    assume "\<exists>x \<in> set ov. snd x > 0"
    then have "\<exists>x \<in> set ov. snd x > snd (UNKNOWN, 0::real)" by simp
    from foldl_overlap_step_some [OF _ this] obtain i where "i < length ov"
      "foldl overlap_step (UNKNOWN, 0) ov = ov ! i" "0 < snd (ov ! i)"
      "\<forall>j < length ov. snd (ov ! j) \<le> snd (ov ! i)"
      "\<forall>j < i. snd (ov ! j) < snd (ov ! i)"
      by auto
    then show "\<exists>i < length ov. find_speaker start end' diar = fst (ov ! i) \<and> 0 < snd (ov ! i)
            \<and> (\<forall>j < length ov. snd (ov ! j) \<le> snd (ov ! i))
            \<and> (\<forall>j < i. snd (ov ! j) < snd (ov ! i))"
      using fs by auto
  qed
  have e1: "find_speaker 0 4 [(ustr ''S1'', [(0, 5)]), (ustr ''S2'', [(5, 10)])] = ustr ''S1''"
    by (simp add: find_speaker_def)
  have e2: "find_speaker 4 6 [(ustr ''S1'', [(0, 5)]), (ustr ''S2'', [(5, 10)])] = ustr ''S1''"
    by (simp add: find_speaker_def)
  have e3: "find_speaker 4 6 [(ustr ''S2'', [(5, 10)]), (ustr ''S1'', [(0, 5)])] = ustr ''S2''"
    by (simp add: find_speaker_def)
  have e4: "find_speaker 20 21 [(ustr ''S1'', [(0, 5)]), (ustr ''S2'', [(5, 10)])] = UNKNOWN"
    by (simp add: find_speaker_def)
  from none some e1 e2 e3 e4 show ?thesis by blast
qed

theorem find_speaker_largest_overlap_witness:
  "(\<exists>x \<in> set (overlaps 4 6 [(ustr ''S1'', [(0, 5)]), (ustr ''S2'', [(5, 10)])]). snd x > 0)
    \<and> (\<exists>i < length (overlaps 4 6 [(ustr ''S1'', [(0, 5)]), (ustr ''S2'', [(5, 10)])]).
          find_speaker 4 6 [(ustr ''S1'', [(0, 5)]), (ustr ''S2'', [(5, 10)])]
            = fst (overlaps 4 6 [(ustr ''S1'', [(0, 5)]), (ustr ''S2'', [(5, 10)])] ! i))
    \<and> overlaps 20 21 [(ustr ''S1'', [(0, 5)]), (ustr ''S2'', [(5, 10)])]
          = [(ustr ''S1'', - 15), (ustr ''S2'', - 10)]
    \<and> find_speaker 20 21 [(ustr ''S1'', [(0, 5)]), (ustr ''S2'', [(5, 10)])] = UNKNOWN"
proof -
  have h1: "\<exists>x \<in> set (overlaps 4 6 [(ustr ''S1'', [(0, 5)]), (ustr ''S2'', [(5, 10)])]). snd x > 0"
    by (simp add: overlaps_def)
  have h2: "\<forall>x \<in> set (overlaps 20 21 [(ustr ''S1'', [(0, 5)]), (ustr ''S2'', [(5, 10)])]). snd x \<le> 0"
    by (simp add: overlaps_def)
  have h3: "overlaps 20 21 [(ustr ''S1'', [(0, 5)]), (ustr ''S2'', [(5, 10)])]
          = [(ustr ''S1'', - 15), (ustr ''S2'', - 10)]"
    by (simp add: overlaps_def)
  from h1 h2 h3
    find_speaker_largest_overlap [of 4 6 "[(ustr ''S1'', [(0, 5)]), (ustr ''S2'', [(5, 10)])]"]
    find_speaker_largest_overlap [of 20 21 "[(ustr ''S1'', [(0, 5)]), (ustr ''S2'', [(5, 10)])]"]
  show ?thesis by blast
qed

subsection \<open>Properties of the matcher\<close>

text \<open>The enrollment entries in order, each name with its distance from the query.\<close>

definition distances :: "('e \<Rightarrow> 'e \<Rightarrow> real) \<Rightarrow> 'e \<Rightarrow> (ustr \<times> 'e) list \<Rightarrow> (ustr \<times> real) list" where
  "distances cosine emb SPEAKERS = map (\<lambda>(name, ref_emb). (name, cosine emb ref_emb)) SPEAKERS"

definition score_step :: "ustr \<times> real \<Rightarrow> ustr \<times> real \<Rightarrow> ustr \<times> real" where
  "score_step best x = (if snd x < snd best then x else best)"

text \<open>
  \<open>first_min ds i\<close>: entry \<open>i\<close> is at minimum distance, and is the first such entry.
\<close>

definition first_min :: "(ustr \<times> real) list \<Rightarrow> nat \<Rightarrow> bool" where
  "first_min ds i \<longleftrightarrow>
     i < length ds \<and> list_all (\<lambda>x. snd (ds ! i) \<le> snd x) ds
       \<and> list_all (\<lambda>x. snd (ds ! i) < snd x) (take i ds)"

lemma first_min_iff:
  "first_min ds i \<longleftrightarrow> i < length ds \<and> (\<forall>j < length ds. snd (ds ! i) \<le> snd (ds ! j))
     \<and> (\<forall>j < i. snd (ds ! i) < snd (ds ! j))"
proof (cases "i < length ds")
  case True
  have "(\<forall>x \<in> set (take i ds). snd (ds ! i) < snd x) \<longleftrightarrow> (\<forall>j < i. snd (ds ! i) < snd (ds ! j))"
    using True by (auto simp: all_set_conv_all_nth)
  then show ?thesis
    by (simp add: first_min_def list_all_iff all_set_conv_all_nth [of ds])
next
  case False
  then show ?thesis by (simp add: first_min_def)
qed

lemma first_min_unique:
  assumes "first_min ds i" and "first_min ds k"
  shows "i = k"
proof (rule ccontr)
  assume "i \<noteq> k"
  then consider "i < k" | "k < i" by linarith
  then show False
  proof cases
    case 1
    then have "snd (ds ! k) < snd (ds ! i)" using assms(2) by (simp add: first_min_iff)
    moreover have "snd (ds ! i) \<le> snd (ds ! k)" using assms by (simp add: first_min_iff)
    ultimately show False by simp
  next
    case 2
    then have "snd (ds ! i) < snd (ds ! k)" using assms(1) by (simp add: first_min_iff)
    moreover have "snd (ds ! k) \<le> snd (ds ! i)" using assms by (simp add: first_min_iff)
    ultimately show False by simp
  qed
qed

lemma identify_loop_foldl:
  "identify_loop cosine emb items best = foldl score_step best (distances cosine emb items)"
proof (induction items arbitrary: best)
  case Nil
  show ?case by (simp add: distances_def)
next
  case (Cons a items)
  obtain name ref_emb where a: "a = (name, ref_emb)" by (cases a)
  obtain b bs where best: "best = (b, bs)" by (cases best)
  have "identify_loop cosine emb (a # items) best =
      identify_loop cosine emb items (score_step best (name, cosine emb ref_emb))"
    by (simp add: a best score_step_def Let_def)
  then show ?case
    using Cons.IH by (simp add: a distances_def)
qed

lemma foldl_score_step_none:
  "\<forall>x \<in> set xs. snd best \<le> snd x \<Longrightarrow> foldl score_step best xs = best"
  by (induction xs arbitrary: best) (auto simp: score_step_def)

lemma foldl_score_step_le:
  "snd (foldl score_step best xs) \<le> snd best"
proof (induction xs arbitrary: best)
  case Nil
  show ?case by simp
next
  case (Cons x xs)
  have "snd (foldl score_step (score_step best x) xs) \<le> snd (score_step best x)"
    by (rule Cons.IH)
  also have "\<dots> \<le> snd best" by (simp add: score_step_def)
  finally show ?case by simp
qed

lemma foldl_score_step_some:
  assumes "\<exists>x \<in> set xs. snd x < snd best"
  shows "\<exists>i. first_min xs i \<and> snd (xs ! i) < snd best \<and> foldl score_step best xs = xs ! i"
  using assms
proof (induction xs arbitrary: best)
  case Nil
  then show ?case by simp
next
  case (Cons x xs)
  define b where "b = score_step best x"
  have b_le: "snd b \<le> snd best" and b_x: "snd b \<le> snd x"
    by (auto simp: b_def score_step_def)
  show ?case
  proof (cases "\<exists>y \<in> set xs. snd y < snd b")
    case True
    from Cons.IH [OF True] obtain i where i: "first_min xs i" "snd (xs ! i) < snd b"
      "foldl score_step b xs = xs ! i"
      by blast
    have "first_min (x # xs) (Suc i)"
      using i(1,2) b_x unfolding first_min_iff
      by (auto simp: nth_Cons split: nat.splits)
    moreover have "snd ((x # xs) ! Suc i) < snd best"
      using i(2) b_le by simp
    moreover have "foldl score_step best (x # xs) = (x # xs) ! Suc i"
      using i(3) by (simp add: b_def)
    ultimately show ?thesis by blast
  next
    case False
    then have all: "\<forall>y \<in> set xs. snd b \<le> snd y" by (auto simp: not_less)
    then have fold: "foldl score_step b xs = b" by (rule foldl_score_step_none)
    have lt: "snd x < snd best"
    proof (rule ccontr)
      assume nlt: "\<not> snd x < snd best"
      then have "b = best" by (simp add: b_def score_step_def)
      then show False using Cons.prems all nlt by auto
    qed
    then have bx: "b = x" by (simp add: b_def score_step_def)
    have "first_min (x # xs) 0"
      using all bx unfolding first_min_iff
      by (auto simp: nth_Cons all_set_conv_all_nth split: nat.splits)
    moreover have "foldl score_step best (x # xs) = (x # xs) ! 0"
      using fold bx by (simp add: b_def)
    ultimately show ?thesis using lt by auto
  qed
qed

lemma identify_speaker_far:
  assumes "classifier audio_np = Inr emb"
    and "\<forall>x \<in> set (distances cosine emb SPEAKERS). 1 \<le> snd x"
  shows "identify_speaker classifier cosine SPEAKERS audio_np = Inr (Unknown, 1)"
proof -
  have "foldl score_step (Unknown, 1) (distances cosine emb SPEAKERS) = (Unknown, 1)"
    using assms(2) by (intro foldl_score_step_none) simp
  then show ?thesis
    by (simp add: identify_speaker_def assms(1) identify_loop_foldl THRESHOLD_def)
qed

lemma identify_speaker_near:
  assumes "classifier audio_np = Inr emb"
    and "first_min (distances cosine emb SPEAKERS) i"
    and "snd (distances cosine emb SPEAKERS ! i) < 1"
  shows "identify_speaker classifier cosine SPEAKERS audio_np =
     Inr (if snd (distances cosine emb SPEAKERS ! i) > THRESHOLD then Unknown
          else fst (distances cosine emb SPEAKERS ! i),
          snd (distances cosine emb SPEAKERS ! i))"
proof -
  define ds where "ds = distances cosine emb SPEAKERS"
  have "i < length ds" using assms(2) by (simp add: first_min_iff ds_def)
  then have "\<exists>x \<in> set ds. snd x < snd (Unknown, 1::real)"
    using assms(3) by (auto simp: ds_def)
  from foldl_score_step_some [OF this] obtain k where k: "first_min ds k"
    "foldl score_step (Unknown, 1) ds = ds ! k"
    by blast
  have "k = i" using k(1) assms(2) by (auto simp: ds_def intro: first_min_unique)
  then have "identify_loop cosine emb SPEAKERS (Unknown, 1) = (fst (ds ! i), snd (ds ! i))"
    using k(2) by (simp add: identify_loop_foldl ds_def)
  then show ?thesis
    by (simp add: identify_speaker_def assms(1) ds_def del: prod.collapse)
qed

lemma cosine_distance_opposite:
  "cosine_distance [1, 0] [- 1, 0] = 2"
  by (simp add: cosine_distance_def dot_def)

lemma cosine_distance_at_threshold:
  "cosine_distance [1, 0, 0, 0] [3, 9, 3, 1] = 7 / 10"
proof -
  have "sqrt 100 = 10" using real_sqrt_abs [of 10] by simp
  then show ?thesis by (simp add: cosine_distance_def dot_def)
qed

text \<open>
  Claim C10. The score returned by \<open>identify_speaker\<close> is at most 1.0. Whenever every
  enrollment entry lies at distance 1.0 or more from the query, and in particular when
  the enrollment is empty, the result is exactly \<open>(Unknown, 1.0)\<close>, not the nearest
  distance: an entry at distance 2 is reported with the score 1.
\<close>

theorem identify_speaker_score_capped:
  assumes "classifier audio_np = Inr emb"
  shows "(\<exists>name score. identify_speaker classifier cosine SPEAKERS audio_np = Inr (name, score)
            \<and> score \<le> 1)
    \<and> ((\<forall>x \<in> set (distances cosine emb SPEAKERS). 1 \<le> snd x) \<longrightarrow>
          identify_speaker classifier cosine SPEAKERS audio_np = Inr (Unknown, 1))
    \<and> identify_speaker classifier cosine [] audio_np = Inr (Unknown, 1)
    \<and> identify_speaker Inr cosine_distance [(ustr ''Alice'', [- 1, 0])] [1, 0] = Inr (Unknown, 1)"
proof -
  have "snd (identify_loop cosine emb SPEAKERS (Unknown, 1)) \<le> 1"
    using foldl_score_step_le [of "(Unknown, 1)" "distances cosine emb SPEAKERS"]
    by (simp add: identify_loop_foldl)
  then have bound: "\<exists>name score. identify_speaker classifier cosine SPEAKERS audio_np = Inr (name, score)
            \<and> score \<le> 1"
    by (auto simp: identify_speaker_def assms split: prod.splits)
  have far: "(\<forall>x \<in> set (distances cosine emb SPEAKERS). 1 \<le> snd x) \<longrightarrow>
          identify_speaker classifier cosine SPEAKERS audio_np = Inr (Unknown, 1)"
    using identify_speaker_far [of classifier audio_np emb cosine SPEAKERS] assms by blast
  have emp: "identify_speaker classifier cosine [] audio_np = Inr (Unknown, 1)"
    using identify_speaker_far [of classifier audio_np emb cosine "[]"] assms
    by (simp add: distances_def)
  have "identify_speaker Inr cosine_distance [(ustr ''Alice'', [- 1, 0])] [1, 0] = Inr (Unknown, 1)"
    using identify_speaker_far [of Inr "[1, 0]" "[1, 0]" cosine_distance "[(ustr ''Alice'', [- 1, 0])]"]
    by (simp add: distances_def cosine_distance_opposite)
  with bound far emp show ?thesis by blast
qed

theorem identify_speaker_score_capped_witness:
  "distances cosine_distance [1, 0] [(ustr ''Alice'', [- 1, 0])] = [(ustr ''Alice'', 2)]
    \<and> identify_speaker Inr cosine_distance [(ustr ''Alice'', [- 1, 0])] [1, 0] = Inr (Unknown, 1)
    \<and> identify_speaker Inr cosine_distance [] [1, 0] = Inr (Unknown, 1)"
proof -
  have d: "distances cosine_distance [1, 0] [(ustr ''Alice'', [- 1, 0])] = [(ustr ''Alice'', 2)]"
    by (simp add: distances_def cosine_distance_opposite)
  show ?thesis
    using identify_speaker_score_capped
      [of Inr "[1, 0]" "[1, 0]" cosine_distance "[(ustr ''Alice'', [- 1, 0])]"] d
    by simp
qed

lemma first_min_exists:
  assumes "ds \<noteq> []"
  shows "\<exists>i. first_min ds i"
proof -
  obtain x xs where ds: "ds = x # xs" using assms by (cases ds) auto
  have "\<exists>y \<in> set ds. snd y < snd (fst x, snd x + 1)" by (auto simp: ds)
  from foldl_score_step_some [OF this] show ?thesis by blast
qed

text \<open>
  Claim C2, as the code has it. For a non-empty enrollment the matcher finds the entry
  at minimum cosine distance, the first one among equals. When that minimum is below
  1.0 the reported distance is the minimum, with the name \<open>Unknown\<close> if it exceeds the
  threshold and the entry's name otherwise; when the minimum is 1.0 or more the result
  is \<open>(Unknown, 1.0)\<close>. The reported distance is the smaller of 1.0 and the minimum.
\<close>

theorem identify_speaker_nearest:
  assumes "classifier audio_np = Inr emb" and "SPEAKERS \<noteq> []"
  shows "\<exists>i. first_min (distances cosine emb SPEAKERS) i
    \<and> identify_speaker classifier cosine SPEAKERS audio_np =
        (if snd (distances cosine emb SPEAKERS ! i) < 1
         then Inr (if snd (distances cosine emb SPEAKERS ! i) > THRESHOLD then Unknown
                   else fst (distances cosine emb SPEAKERS ! i),
                   snd (distances cosine emb SPEAKERS ! i))
         else Inr (Unknown, 1))"
proof -
  define ds where "ds = distances cosine emb SPEAKERS"
  have "ds \<noteq> []" using assms(2) by (simp add: ds_def distances_def)
  then obtain i where i: "first_min ds i" using first_min_exists by blast
  show ?thesis
  proof (cases "snd (ds ! i) < 1")
    case True
    then show ?thesis
      using identify_speaker_near [of classifier audio_np emb cosine SPEAKERS i] assms(1) i
      unfolding ds_def by (intro exI [of _ i]) simp
  next
    case False
    then have "\<forall>x \<in> set ds. 1 \<le> snd x"
      using i by (force simp: first_min_def list_all_iff)
    then show ?thesis
      using identify_speaker_far [of classifier audio_np emb cosine SPEAKERS] assms(1) i False
      unfolding ds_def by (intro exI [of _ i]) simp
  qed
qed

lemma distances_two_entries:
  "distances cosine_distance [1, 0, 0, 0]
     [(ustr ''Alice'', [3, 9, 3, 1]), (ustr ''Bob'', [1, 0, 0, 0])]
   = [(ustr ''Alice'', 7 / 10), (ustr ''Bob'', 0)]"
proof -
  have "cosine_distance [1, 0, 0, 0] [1, 0, 0, 0] = 0"
    by (simp add: cosine_distance_def dot_def)
  then show ?thesis
    by (simp add: distances_def cosine_distance_at_threshold)
qed

theorem identify_speaker_nearest_witness:
  "first_min (distances cosine_distance [1, 0, 0, 0]
       [(ustr ''Alice'', [3, 9, 3, 1]), (ustr ''Bob'', [1, 0, 0, 0])]) 1
    \<and> identify_speaker Inr cosine_distance
         [(ustr ''Alice'', [3, 9, 3, 1]), (ustr ''Bob'', [1, 0, 0, 0])] [1, 0, 0, 0]
       = Inr (ustr ''Bob'', 0)"
proof -
  let ?S = "[(ustr ''Alice'', [3, 9, 3, 1]), (ustr ''Bob'', [1, 0, 0, 0 :: real])]"
  have fm: "first_min (distances cosine_distance [1, 0, 0, 0] ?S) 1"
    by (simp add: distances_two_entries first_min_def)
  from identify_speaker_nearest [of Inr "[1, 0, 0, 0]" "[1, 0, 0, 0]" ?S cosine_distance]
  obtain i where i: "first_min (distances cosine_distance [1, 0, 0, 0] ?S) i"
    "identify_speaker Inr cosine_distance ?S [1, 0, 0, 0] =
        (if snd (distances cosine_distance [1, 0, 0, 0] ?S ! i) < 1
         then Inr (if snd (distances cosine_distance [1, 0, 0, 0] ?S ! i) > THRESHOLD then Unknown
                   else fst (distances cosine_distance [1, 0, 0, 0] ?S ! i),
                   snd (distances cosine_distance [1, 0, 0, 0] ?S ! i))
         else Inr (Unknown, 1))"
    by auto
  have "i = 1" using i(1) fm by (rule first_min_unique)
  then have "identify_speaker Inr cosine_distance ?S [1, 0, 0, 0] = Inr (ustr ''Bob'', 0)"
    using i(2) by (simp add: distances_two_entries THRESHOLD_def)
  with fm show ?thesis by simp
qed

theorem identify_speaker_true_minimum_counterexample:
  "cosine_distance [1, 0] [- 1, 0] = 2 \<and> THRESHOLD < 2
    \<and> identify_speaker Inr cosine_distance [(ustr ''Alice'', [- 1, 0])] [1, 0] = Inr (Unknown, 1)
    \<and> identify_speaker Inr cosine_distance [(ustr ''Alice'', [- 1, 0])] [1, 0]
        \<noteq> Inr (Unknown, cosine_distance [1, 0] [- 1, 0])"
proof -
  have r: "identify_speaker Inr cosine_distance [(ustr ''Alice'', [- 1, 0])] [1, 0] = Inr (Unknown, 1)"
    using identify_speaker_far [of Inr "[1, 0]" "[1, 0]" cosine_distance "[(ustr ''Alice'', [- 1, 0])]"]
    by (simp add: distances_def cosine_distance_opposite)
  then show ?thesis
    by (simp add: cosine_distance_opposite THRESHOLD_def)
qed

text \<open>
  Claim C5, as the code has it. The test is \<open>best_score > THRESHOLD\<close>: a nearest entry at
  a distance equal to the threshold is accepted and its name returned, as is one at
  \<open>THRESHOLD - \<epsilon>\<close> for any \<open>\<epsilon> > 0\<close>; the match is rejected, with the name \<open>Unknown\<close>,
  only at a distance strictly above the threshold.
\<close>

theorem identify_speaker_threshold_boundary:
  assumes "classifier audio_np = Inr emb"
    and "first_min (distances cosine emb SPEAKERS) i"
  defines "d \<equiv> snd (distances cosine emb SPEAKERS ! i)"
    and "name \<equiv> fst (distances cosine emb SPEAKERS ! i)"
  shows "(d = THRESHOLD \<longrightarrow>
            identify_speaker classifier cosine SPEAKERS audio_np = Inr (name, THRESHOLD))
    \<and> (\<forall>\<epsilon> > 0. d = THRESHOLD - \<epsilon> \<longrightarrow>
            identify_speaker classifier cosine SPEAKERS audio_np = Inr (name, THRESHOLD - \<epsilon>))
    \<and> (d > THRESHOLD \<longrightarrow>
            (\<exists>score. identify_speaker classifier cosine SPEAKERS audio_np = Inr (Unknown, score)))"
proof -
  have le: "d \<le> THRESHOLD \<Longrightarrow>
      identify_speaker classifier cosine SPEAKERS audio_np = Inr (name, d)"
  proof -
    assume "d \<le> THRESHOLD"
    then have "d < 1" by (simp add: THRESHOLD_def)
    then show ?thesis
      using identify_speaker_near [of classifier audio_np emb cosine SPEAKERS i] assms(1,2)
        \<open>d \<le> THRESHOLD\<close>
      by (simp add: d_def name_def)
  qed
  have gt: "d > THRESHOLD \<Longrightarrow>
      \<exists>score. identify_speaker classifier cosine SPEAKERS audio_np = Inr (Unknown, score)"
  proof -
    assume g: "d > THRESHOLD"
    show ?thesis
    proof (cases "d < 1")
      case True
      then show ?thesis
        using identify_speaker_near [of classifier audio_np emb cosine SPEAKERS i] assms(1,2) g
        by (simp add: d_def)
    next
      case False
      then have "\<forall>x \<in> set (distances cosine emb SPEAKERS). 1 \<le> snd x"
        using assms(2) by (force simp: first_min_def list_all_iff d_def)
      then show ?thesis
        using identify_speaker_far [of classifier audio_np emb cosine SPEAKERS] assms(1) by simp
    qed
  qed
  show ?thesis using le gt by auto
qed

theorem identify_speaker_threshold_boundary_witness:
  "first_min (distances cosine_distance [1, 0, 0, 0] [(ustr ''Bob'', [3, 9, 3, 1])]) 0
    \<and> snd (distances cosine_distance [1, 0, 0, 0] [(ustr ''Bob'', [3, 9, 3, 1])] ! 0) = THRESHOLD
    \<and> identify_speaker Inr cosine_distance [(ustr ''Bob'', [3, 9, 3, 1])] [1, 0, 0, 0]
        = Inr (ustr ''Bob'', THRESHOLD)
    \<and> first_min (distances cosine_distance [1, 0] [(ustr ''Alice'', [- 1, 0])]) 0
    \<and> snd (distances cosine_distance [1, 0] [(ustr ''Alice'', [- 1, 0])] ! 0) > THRESHOLD
    \<and> (\<exists>score. identify_speaker Inr cosine_distance [(ustr ''Alice'', [- 1, 0])] [1, 0]
          = Inr (Unknown, score))"
proof -
  have d1: "distances cosine_distance [1, 0, 0, 0] [(ustr ''Bob'', [3, 9, 3, 1])]
      = [(ustr ''Bob'', THRESHOLD)]"
    by (simp add: distances_def cosine_distance_at_threshold THRESHOLD_def)
  have d2: "distances cosine_distance [1, 0] [(ustr ''Alice'', [- 1, 0])] = [(ustr ''Alice'', 2)]"
    by (simp add: distances_def cosine_distance_opposite)
  have f1: "first_min (distances cosine_distance [1, 0, 0, 0] [(ustr ''Bob'', [3, 9, 3, 1])]) 0"
    by (simp add: d1 first_min_def)
  have f2: "first_min (distances cosine_distance [1, 0] [(ustr ''Alice'', [- 1, 0])]) 0"
    by (simp add: d2 first_min_def)
  have t2: "THRESHOLD < 2" by (simp add: THRESHOLD_def)
  from identify_speaker_threshold_boundary
      [of Inr "[1, 0, 0, 0]" "[1, 0, 0, 0]" cosine_distance "[(ustr ''Bob'', [3, 9, 3, 1])]" 0] f1
  have r1: "identify_speaker Inr cosine_distance [(ustr ''Bob'', [3, 9, 3, 1])] [1, 0, 0, 0]
        = Inr (ustr ''Bob'', THRESHOLD)"
    by (simp add: d1)
  from identify_speaker_threshold_boundary
      [of Inr "[1, 0]" "[1, 0]" cosine_distance "[(ustr ''Alice'', [- 1, 0])]" 0] f2 t2
  have r2: "\<exists>score. identify_speaker Inr cosine_distance [(ustr ''Alice'', [- 1, 0])] [1, 0]
          = Inr (Unknown, score)"
    by (simp add: d2)
  from f1 f2 r1 r2 t2 show ?thesis by (simp add: d1 d2)
qed

theorem identify_speaker_rejects_at_threshold_counterexample:
  "cosine_distance [1, 0, 0, 0] [3, 9, 3, 1] = THRESHOLD
    \<and> identify_speaker Inr cosine_distance [(ustr ''Bob'', [3, 9, 3, 1])] [1, 0, 0, 0]
        = Inr (ustr ''Bob'', THRESHOLD)
    \<and> ustr ''Bob'' \<noteq> Unknown"
proof -
  have d1: "distances cosine_distance [1, 0, 0, 0] [(ustr ''Bob'', [3, 9, 3, 1])]
      = [(ustr ''Bob'', 7 / 10)]"
    by (simp add: distances_def cosine_distance_at_threshold)
  have "first_min [(ustr ''Bob'', 7 / 10 :: real)] 0" by (simp add: first_min_def)
  then have "identify_speaker Inr cosine_distance [(ustr ''Bob'', [3, 9, 3, 1])] [1, 0, 0, 0]
        = Inr (ustr ''Bob'', 7 / 10)"
    using identify_speaker_near
      [of Inr "[1, 0, 0, 0]" "[1, 0, 0, 0]" cosine_distance "[(ustr ''Bob'', [3, 9, 3, 1])]" 0]
    by (simp add: d1 THRESHOLD_def)
  then show ?thesis
    by (simp add: cosine_distance_at_threshold THRESHOLD_def Unknown_def ustr_def)
qed

subsection \<open>Properties of sample accumulation\<close>

text \<open>The slice of the audio that one interval selects.\<close>

definition slice_of :: "'a list \<Rightarrow> interval \<Rightarrow> 'a list" where
  "slice_of audio t =
     py_slice audio (py_int (fst t * of_int SAMPLE_RATE)) (py_int (snd t * of_int SAMPLE_RATE))"

text \<open>The number of samples in the first \<open>j\<close> slices of a label.\<close>

definition running :: "'a list \<Rightarrow> interval list \<Rightarrow> nat \<Rightarrow> nat" where
  "running audio times' j = sum_list (map length (take j (map (slice_of audio) times')))"

text \<open>
  The number of slices taken when \<open>base\<close> samples are already there and the coming
  slices have the lengths \<open>ns\<close>.
\<close>

fun stop_index :: "nat \<Rightarrow> nat list \<Rightarrow> nat" where
  "stop_index base [] = 0"
| "stop_index base (n # ns) =
     (if int (base + n) > SAMPLE_RATE * 15 then 1 else Suc (stop_index (base + n) ns))"

lemma accumulate_stop_index:
  "accumulate audio times' samples =
     samples @ take (stop_index (sum_list (map length samples)) (map (length \<circ> slice_of audio) times'))
       (map (slice_of audio) times')"
proof (induction times' arbitrary: samples)
  case Nil
  show ?case by simp
next
  case (Cons t times')
  obtain start end' where t: "t = (start, end')" by (cases t)
  have sl: "py_slice audio (py_int (start * of_int SAMPLE_RATE)) (py_int (end' * of_int SAMPLE_RATE))
      = slice_of audio t"
    by (simp add: slice_of_def t)
  show ?case
  proof (cases "int (sum_list (map length samples) + length (slice_of audio t)) > SAMPLE_RATE * 15")
    case True
    then show ?thesis
      unfolding t [symmetric] by (simp add: t sl Let_def)
  next
    case False
    have "accumulate audio (t # times') samples = accumulate audio times' (samples @ [slice_of audio t])"
      using False by (simp add: t sl Let_def)
    then show ?thesis
      using False by (simp add: Cons.IH)
  qed
qed

lemma stop_index_le: "stop_index base ns \<le> length ns"
  by (induction ns arbitrary: base) auto

lemma stop_index_before:
  "int base \<le> SAMPLE_RATE * 15 \<Longrightarrow> j < stop_index base ns \<Longrightarrow>
     int (base + sum_list (take j ns)) \<le> SAMPLE_RATE * 15"
proof (induction ns arbitrary: base j)
  case Nil
  then show ?case by simp
next
  case (Cons n ns)
  show ?case
  proof (cases j)
    case 0
    then show ?thesis using Cons.prems(1) by simp
  next
    case (Suc j')
    have small: "\<not> int (base + n) > SAMPLE_RATE * 15"
      using Cons.prems(2) Suc by (auto split: if_splits)
    then have "j' < stop_index (base + n) ns"
      using Cons.prems(2) Suc by simp
    from Cons.IH [OF _ this] small show ?thesis
      by (simp add: Suc add.assoc)
  qed
qed

lemma stop_index_early:
  "stop_index base ns < length ns \<Longrightarrow>
     int (base + sum_list (take (stop_index base ns) ns)) > SAMPLE_RATE * 15"
proof (induction ns arbitrary: base)
  case Nil
  then show ?case by simp
next
  case (Cons n ns)
  show ?case
  proof (cases "int (base + n) > SAMPLE_RATE * 15")
    case True
    then show ?thesis by simp
  next
    case False
    then have "stop_index (base + n) ns < length ns"
      using Cons.prems by simp
    from Cons.IH [OF this] False show ?thesis
      by (simp add: add.assoc)
  qed
qed

lemma stop_index_exceeds:
  "j \<le> length ns \<Longrightarrow> int (base + sum_list (take j ns)) > SAMPLE_RATE * 15 \<Longrightarrow>
     int base \<le> SAMPLE_RATE * 15 \<Longrightarrow>
     int (base + sum_list (take (stop_index base ns) ns)) > SAMPLE_RATE * 15"
proof (induction ns arbitrary: base j)
  case Nil
  then show ?case by simp
next
  case (Cons n ns)
  show ?case
  proof (cases "int (base + n) > SAMPLE_RATE * 15")
    case True
    then show ?thesis by simp
  next
    case False
    obtain j' where j: "j = Suc j'"
      using Cons.prems(2,3) by (cases j) auto
    have a: "int (base + n + sum_list (take j' ns)) > SAMPLE_RATE * 15"
      using Cons.prems(2) by (simp add: j add.assoc)
    have b: "j' \<le> length ns" using Cons.prems(1) j by simp
    have c: "int (base + n) \<le> SAMPLE_RATE * 15" using False by simp
    have "int (base + n + sum_list (take (stop_index (base + n) ns) ns)) > SAMPLE_RATE * 15"
      by (rule Cons.IH [OF b a c])
    then show ?thesis using False by (simp add: add.assoc)
  qed
qed

text \<open>
  Claim C4. For a label's intervals in stored order, accumulation keeps the slices of
  the first \<open>k\<close> intervals, where no shorter prefix has a sample count above the cap of
  \<open>15 * SAMPLE_RATE\<close> samples, and where the count of the \<open>k\<close> slices is above the cap
  whenever an interval was left out. So when some prefix exceeds the cap, the \<open>k\<close>-th
  interval is the first to do so, the concatenated clip is longer than the cap (the check
  comes after the slice is appended, and the slice is kept whole), and no later interval
  is accumulated.
\<close>

theorem accumulate_stops_after_cap:
  fixes audio :: "'a list" and times' :: "interval list"
  shows "\<exists>k \<le> length times'.
      accumulate audio times' [] = take k (map (slice_of audio) times')
    \<and> (\<forall>j < k. int (running audio times' j) \<le> SAMPLE_RATE * 15)
    \<and> (k < length times' \<longrightarrow> int (running audio times' k) > SAMPLE_RATE * 15)
    \<and> ((\<exists>j \<le> length times'. int (running audio times' j) > SAMPLE_RATE * 15) \<longrightarrow>
          int (running audio times' k) > SAMPLE_RATE * 15
        \<and> (\<exists>clip. np_concatenate (accumulate audio times' []) = Inr clip
              \<and> int (length clip) = int (running audio times' k)
              \<and> int (length clip) \<ge> SAMPLE_RATE * 15))"
proof -
  define ns where "ns = map (length \<circ> slice_of audio) times'"
  define k where "k = stop_index 0 ns"
  have run: "running audio times' j = sum_list (take j ns)" for j
    by (simp add: running_def ns_def take_map)
  have len: "length ns = length times'" by (simp add: ns_def)
  have cap0: "int 0 \<le> SAMPLE_RATE * 15" by (simp add: SAMPLE_RATE_def)
  have k_le: "k \<le> length times'"
    using stop_index_le [of 0 ns] by (simp add: k_def len)
  have acc: "accumulate audio times' [] = take k (map (slice_of audio) times')"
    by (simp add: accumulate_stop_index k_def ns_def)
  have before: "\<forall>j < k. int (running audio times' j) \<le> SAMPLE_RATE * 15"
    using stop_index_before [OF cap0, of _ ns] by (simp add: run k_def)
  have early: "k < length times' \<longrightarrow> int (running audio times' k) > SAMPLE_RATE * 15"
    using stop_index_early [of 0 ns] by (simp add: run k_def len)
  have exceeds: "(\<exists>j \<le> length times'. int (running audio times' j) > SAMPLE_RATE * 15) \<longrightarrow>
          int (running audio times' k) > SAMPLE_RATE * 15
        \<and> (\<exists>clip. np_concatenate (accumulate audio times' []) = Inr clip
              \<and> int (length clip) = int (running audio times' k)
              \<and> int (length clip) \<ge> SAMPLE_RATE * 15)"
  proof
    assume "\<exists>j \<le> length times'. int (running audio times' j) > SAMPLE_RATE * 15"
    then obtain j where j: "j \<le> length ns" "int (0 + sum_list (take j ns)) > SAMPLE_RATE * 15"
      by (auto simp: run len)
    from stop_index_exceeds [OF j cap0]
    have over: "int (running audio times' k) > SAMPLE_RATE * 15"
      by (simp add: run k_def)
    have "k \<noteq> 0"
    proof
      assume "k = 0"
      then have "running audio times' k = 0" by (simp add: running_def)
      then show False using over by (simp add: SAMPLE_RATE_def)
    qed
    then have ne: "accumulate audio times' [] \<noteq> []"
      using k_le by (auto simp: acc)
    have "length (concat (accumulate audio times' [])) = running audio times' k"
      by (simp add: acc running_def length_concat)
    then show "int (running audio times' k) > SAMPLE_RATE * 15
        \<and> (\<exists>clip. np_concatenate (accumulate audio times' []) = Inr clip
              \<and> int (length clip) = int (running audio times' k)
              \<and> int (length clip) \<ge> SAMPLE_RATE * 15)"
      using over ne by (simp add: np_concatenate_def)
  qed
  from k_le acc before early exceeds show ?thesis by blast
qed

lemma slice_of_replicate:
  assumes "0 \<le> a" and "a \<le> b" and "b \<le> int n"
  shows "py_slice (replicate n x) a b = replicate (nat (b - a)) x"
proof -
  have a: "slice_index n a = nat a" and b: "slice_index n b = nat b"
    using assms by (auto simp: slice_index_def)
  have "min (nat b - nat a) (n - nat a) = nat (b - a)"
    using assms by linarith
  then show ?thesis
    by (simp add: py_slice_def a b Let_def)
qed

lemma slices_long_audio:
  "map (slice_of (replicate 400000 (0::real))) [(0, 10), (10, 20), (20, 25)]
     = [replicate 160000 0, replicate 160000 0, replicate 80000 0]"
  by (simp add: slice_of_def py_int_def SAMPLE_RATE_def slice_of_replicate)

theorem accumulate_stops_after_cap_witness:
  "int (running (replicate 400000 (0::real)) [(0, 10), (10, 20), (20, 25)] 2) > SAMPLE_RATE * 15
    \<and> (\<exists>k \<le> 3. accumulate (replicate 400000 (0::real)) [(0, 10), (10, 20), (20, 25)] []
            = take k (map (slice_of (replicate 400000 0)) [(0, 10), (10, 20), (20, 25)])
          \<and> int (running (replicate 400000 (0::real)) [(0, 10), (10, 20), (20, 25)] k)
              > SAMPLE_RATE * 15)
    \<and> accumulate (replicate 400000 (0::real)) [(0, 10), (10, 20), (20, 25)] []
        = [replicate 160000 0, replicate 160000 0]"
proof -
  let ?audio = "replicate 400000 (0::real)"
  let ?times = "[(0, 10), (10, 20), (20, 25)] :: interval list"
  have r2: "int (running ?audio ?times 2) > SAMPLE_RATE * 15"
    unfolding running_def slices_long_audio by (simp add: SAMPLE_RATE_def)
  then have h: "\<exists>j \<le> length ?times. int (running ?audio ?times j) > SAMPLE_RATE * 15"
    by (intro exI [of _ 2]) simp
  have acc: "accumulate ?audio ?times [] = [replicate 160000 0, replicate 160000 0]"
    unfolding accumulate_stop_index slices_long_audio
    by (simp add: slice_of_def py_int_def SAMPLE_RATE_def slice_of_replicate)
  from accumulate_stops_after_cap [of ?times ?audio]
  obtain k where k: "k \<le> length ?times"
    "accumulate ?audio ?times [] = take k (map (slice_of ?audio) ?times)"
    "(\<exists>j \<le> length ?times. int (running ?audio ?times j) > SAMPLE_RATE * 15) \<longrightarrow>
       int (running ?audio ?times k) > SAMPLE_RATE * 15"
    by blast
  have "k \<le> 3" using k(1) by simp
  moreover have "int (running ?audio ?times k) > SAMPLE_RATE * 15"
    using k(3) h by blast
  ultimately have "\<exists>k \<le> 3. accumulate ?audio ?times [] = take k (map (slice_of ?audio) ?times)
          \<and> int (running ?audio ?times k) > SAMPLE_RATE * 15"
    using k(2) by blast
  with r2 acc show ?thesis by blast
qed

subsection \<open>A label with no samples\<close>

lemma accumulate_all_empty:
  assumes "running audio times' (length times') = 0"
  shows "accumulate audio times' [] = map (slice_of audio) times'"
proof -
  define ns where "ns = map (length \<circ> slice_of audio) times'"
  have run: "running audio times' j = sum_list (take j ns)" for j
    by (simp add: running_def ns_def take_map)
  have "\<not> stop_index 0 ns < length ns"
  proof
    assume "stop_index 0 ns < length ns"
    from stop_index_early [OF this]
    have "int (sum_list (take (stop_index 0 ns) ns)) > SAMPLE_RATE * 15" by simp
    moreover have "sum_list (take (stop_index 0 ns) ns) \<le> sum_list ns"
    proof -
      have "sum_list ns = sum_list (take (stop_index 0 ns) ns) + sum_list (drop (stop_index 0 ns) ns)"
        by (simp flip: sum_list_append)
      then show ?thesis by simp
    qed
    moreover have "sum_list ns = 0"
      using assms by (simp add: run ns_def)
    ultimately show False by (simp add: SAMPLE_RATE_def)
  qed
  then have "stop_index 0 ns = length ns"
    using stop_index_le [of 0 ns] by simp
  then show ?thesis
    by (simp add: accumulate_stop_index ns_def)
qed

text \<open>
  Claim C6, as the code has it. For a label with at least one interval whose slices sum
  to zero samples, concatenation does not fail and yields the empty buffer. There is no
  check for an empty sample: the empty buffer is handed to \<open>identify_speaker\<close> like any
  other. If the embedder raises on it, the exception ends the whole enrollment step;
  otherwise the label gets whatever name the matcher returns, and the loop goes on with
  the remaining labels.
\<close>

theorem empty_sample_reaches_embedder:
  assumes "times' \<noteq> []" and "running audio times' (length times') = 0"
  shows "np_concatenate (accumulate audio times' []) = Inr []
    \<and> build_speaker_name_map_items classifier cosine SPEAKERS audio ((spk, times') # items) speaker_map
        = (case identify_speaker classifier cosine SPEAKERS [] of
             Inl err \<Rightarrow> Inl err
           | Inr (name, score) \<Rightarrow>
               build_speaker_name_map_items classifier cosine SPEAKERS audio items
                 (dict_set speaker_map spk name))
    \<and> (\<forall>err. classifier [] = Inl err \<longrightarrow>
          build_speaker_name_map classifier cosine SPEAKERS audio ((spk, times') # items) = Inl err)"
proof -
  have acc: "accumulate audio times' [] = map (slice_of audio) times'"
    using assms(2) by (rule accumulate_all_empty)
  have "length (concat (map (slice_of audio) times')) = 0"
    using assms(2) by (simp add: running_def length_concat)
  then have "concat (map (slice_of audio) times') = []" by simp
  then have cat: "np_concatenate (accumulate audio times' []) = Inr []"
    using assms(1) by (simp add: acc np_concatenate_def)
  then have step: "build_speaker_name_map_items classifier cosine SPEAKERS audio ((spk, times') # items) sm
        = (case identify_speaker classifier cosine SPEAKERS [] of
             Inl err \<Rightarrow> Inl err
           | Inr (name, score) \<Rightarrow>
               build_speaker_name_map_items classifier cosine SPEAKERS audio items
                 (dict_set sm spk name))" for sm
    by simp
  have "\<forall>err. classifier [] = Inl err \<longrightarrow>
          build_speaker_name_map classifier cosine SPEAKERS audio ((spk, times') # items) = Inl err"
    unfolding build_speaker_name_map_def step by (simp add: identify_speaker_def)
  with cat step show ?thesis by blast
qed

lemma slices_empty_label:
  "slice_of (replicate 16000 (0::real)) (1 / 2, 1 / 2) = []"
  "slice_of (replicate 16000 (0::real)) (0, 1) = replicate 16000 0"
  by (simp_all add: slice_of_def py_int_def SAMPLE_RATE_def slice_of_replicate)

lemma build_map_raising_embedder:
  "build_speaker_name_map (\<lambda>a. if a = [] then Inl EmbedderError else Inr [1, 0])
      cosine_distance [(ustr ''Bob'', [1, 0])] (replicate 16000 (0::real))
      [(ustr ''S1'', [(1 / 2, 1 / 2)]), (ustr ''S2'', [(0, 1)])]
    = Inl EmbedderError"
  by (simp add: build_speaker_name_map_def accumulate_stop_index slices_empty_label
      SAMPLE_RATE_def np_concatenate_def identify_speaker_def)

lemma build_map_total_embedder:
  "build_speaker_name_map (\<lambda>a. Inr [1, 0])
      cosine_distance [(ustr ''Bob'', [1, 0])] (replicate 16000 (0::real))
      [(ustr ''S1'', [(1 / 2, 1 / 2)]), (ustr ''S2'', [(0, 1)])]
    = Inr [(ustr ''S1'', ustr ''Bob''), (ustr ''S2'', ustr ''Bob'')]"
proof -
  have "cosine_distance [1, 0] [1, 0] = 0"
    by (simp add: cosine_distance_def dot_def)
  then show ?thesis
    by (simp add: build_speaker_name_map_def accumulate_stop_index slices_empty_label
        SAMPLE_RATE_def np_concatenate_def identify_speaker_def THRESHOLD_def ustr_def)
qed

theorem empty_sample_reaches_embedder_witness:
  "running (replicate 16000 (0::real)) [(1 / 2, 1 / 2)] (length [(1 / 2, 1 / 2) :: interval]) = 0
    \<and> np_concatenate (accumulate (replicate 16000 (0::real)) [(1 / 2, 1 / 2)] []) = Inr []
    \<and> build_speaker_name_map (\<lambda>a. if a = [] then Inl EmbedderError else Inr [1, 0])
        cosine_distance [(ustr ''Bob'', [1, 0])] (replicate 16000 (0::real))
        [(ustr ''S1'', [(1 / 2, 1 / 2)]), (ustr ''S2'', [(0, 1)])]
      = Inl EmbedderError"
proof -
  have r: "running (replicate 16000 (0::real)) [(1 / 2, 1 / 2)] (length [(1 / 2, 1 / 2) :: interval]) = 0"
    by (simp add: running_def slices_empty_label)
  have ne: "[(1 / 2, 1 / 2) :: interval] \<noteq> []" by simp
  show ?thesis
    using r empty_sample_reaches_embedder [OF ne r,
        of "\<lambda>a. if a = [] then Inl EmbedderError else Inr [1, 0]" cosine_distance
           "[(ustr ''Bob'', [1, 0])]" "ustr ''S1''" "[(ustr ''S2'', [(0, 1)])]" "[]"]
    by simp
qed

theorem empty_sample_resolved_unknown_counterexample:
  "build_speaker_name_map (\<lambda>a. if a = [] then Inl EmbedderError else Inr [1, 0])
      cosine_distance [(ustr ''Bob'', [1, 0])] (replicate 16000 (0::real))
      [(ustr ''S1'', [(1 / 2, 1 / 2)]), (ustr ''S2'', [(0, 1)])]
    = Inl EmbedderError
    \<and> build_speaker_name_map (\<lambda>a. Inr [1, 0])
      cosine_distance [(ustr ''Bob'', [1, 0])] (replicate 16000 (0::real))
      [(ustr ''S1'', [(1 / 2, 1 / 2)]), (ustr ''S2'', [(0, 1)])]
    = Inr [(ustr ''S1'', ustr ''Bob''), (ustr ''S2'', ustr ''Bob'')]
    \<and> ustr ''Bob'' \<noteq> Unknown"
  using build_map_raising_embedder build_map_total_embedder
  by (simp add: Unknown_def ustr_def)

subsection \<open>Properties of fusion\<close>

lemma nat_digits_small: "n < 10 \<Longrightarrow> nat_digits n = [48 + n]"
  by (simp add: nat_digits.simps [of n])

lemma nat_digits_large: "10 \<le> n \<Longrightarrow> nat_digits n = nat_digits (n div 10) @ [48 + n mod 10]"
  by (simp add: nat_digits.simps [of n])

lemma nat_digits_shape:
  "nat_digits n \<noteq> [] \<and> list_all (\<lambda>c. 48 \<le> c \<and> c \<le> 57) (nat_digits n)"
proof (induction n rule: nat_digits.induct)
  case (1 n)
  show ?case
  proof (cases "n < 10")
    case True
    then show ?thesis by (simp add: nat_digits_small)
  next
    case False
    have "n mod 10 < 10" by simp
    then have "48 + n mod 10 \<le> 57" by linarith
    then show ?thesis using 1 False by (simp add: nat_digits_large)
  qed
qed

lemma round_half_even_near: "\<bar>y - of_int (round_half_even y)\<bar> \<le> 1 / 2"
  unfolding round_half_even_def Let_def
  by (auto simp: abs_if) linarith+

lemma round_half_even_nonneg: "0 \<le> y \<Longrightarrow> 0 \<le> round_half_even y"
  unfolding round_half_even_def Let_def by auto

lemma main_lines_map:
  "main_lines transcript diar m lines =
     lines @ map (\<lambda>t. fused_line t (dict_get m (find_speaker (c_start t) (c_end t) diar)
                                       (find_speaker (c_start t) (c_end t) diar))) transcript"
  by (induction transcript arbitrary: lines) (simp_all add: Let_def)

text \<open>
  Claim C3. Fusion emits one line for each utterance, in the order of the transcript:
  the list of lines is the transcript mapped, utterance by utterance, to the text
  \<open>[start-end] name: text\<close>. The name is the entry of the identity map for the attributed
  label and the label itself when the map has no entry for it. Each time is printed as
  an optional sign, the digits of the whole part, a point and two digits, for the
  hundredths nearest to the time.
\<close>

theorem fusion_one_line_per_utterance:
  "main_lines transcript diar_segments speaker_name_map [] =
     map (\<lambda>t. ustr ''['' @ format_2f (c_start t) @ [8211] @ format_2f (c_end t) @ ustr ''] ''
               @ (case map_of speaker_name_map (find_speaker (c_start t) (c_end t) diar_segments) of
                    None \<Rightarrow> find_speaker (c_start t) (c_end t) diar_segments
                  | Some name \<Rightarrow> name)
               @ ustr '': '' @ c_text t) transcript
   \<and> length (main_lines transcript diar_segments speaker_name_map []) = length transcript
   \<and> (\<exists>n. \<bar>\<bar>x\<bar> * 100 - real n\<bar> \<le> 1 / 2
          \<and> format_2f x = (if x < 0 then ustr ''-'' else []) @ nat_digits (n div 100)
                @ [46, 48 + n mod 100 div 10, 48 + n mod 10]
          \<and> nat_digits (n div 100) \<noteq> []
          \<and> list_all (\<lambda>c. 48 \<le> c \<and> c \<le> 57)
                (nat_digits (n div 100) @ [48 + n mod 100 div 10, 48 + n mod 10]))"
proof -
  have lines: "main_lines transcript diar_segments speaker_name_map [] =
     map (\<lambda>t. ustr ''['' @ format_2f (c_start t) @ [8211] @ format_2f (c_end t) @ ustr ''] ''
               @ (case map_of speaker_name_map (find_speaker (c_start t) (c_end t) diar_segments) of
                    None \<Rightarrow> find_speaker (c_start t) (c_end t) diar_segments
                  | Some name \<Rightarrow> name)
               @ ustr '': '' @ c_text t) transcript"
    by (simp add: main_lines_map fused_line_def dict_get_def)
  have len: "length (main_lines transcript diar_segments speaker_name_map []) = length transcript"
    by (simp add: main_lines_map)
  define n where "n = nat (round_half_even (\<bar>x\<bar> * 100))"
  have "0 \<le> round_half_even (\<bar>x\<bar> * 100)"
    by (rule round_half_even_nonneg) simp
  then have "real n = of_int (round_half_even (\<bar>x\<bar> * 100))"
    by (simp add: n_def)
  then have near: "\<bar>\<bar>x\<bar> * 100 - real n\<bar> \<le> 1 / 2"
    using round_half_even_near [of "\<bar>x\<bar> * 100"] by simp
  have fmt: "format_2f x = (if x < 0 then ustr ''-'' else []) @ nat_digits (n div 100)
                @ [46, 48 + n mod 100 div 10, 48 + n mod 10]"
    by (simp add: format_2f_def n_def Let_def)
  have "n mod 100 div 10 < 10" and "n mod 10 < 10" by simp_all
  then have "48 + n mod 100 div 10 \<le> 57" and "48 + n mod 10 \<le> 57" by linarith+
  then have digs: "list_all (\<lambda>c. 48 \<le> c \<and> c \<le> 57)
                (nat_digits (n div 100) @ [48 + n mod 100 div 10, 48 + n mod 10])"
    using nat_digits_shape [of "n div 100"] by simp
  from lines len near fmt digs nat_digits_shape [of "n div 100"] show ?thesis by blast
qed

lemma format_2f_examples:
  "format_2f 0 = ustr ''0.00''" "format_2f 4 = ustr ''4.00''"
  "format_2f (161 / 8) = ustr ''20.12''" "format_2f (171 / 8) = ustr ''21.38''"
  by (simp_all add: format_2f_def round_half_even_def nat_digits_small nat_digits_large ustr_def)

theorem fusion_one_line_per_utterance_witness:
  "main_lines
     [\<lparr>c_start = 0, c_end = 4, c_text = ustr ''hi''\<rparr>,
      \<lparr>c_start = 20.125, c_end = 21.375, c_text = ustr ''bye''\<rparr>]
     [(ustr ''S1'', [(0, 5)]), (ustr ''S2'', [(5, 10)])]
     [(ustr ''S1'', ustr ''Alice'')] []
   = [ustr ''[0.00'' @ [8211] @ ustr ''4.00] Alice: hi'',
      ustr ''[20.12'' @ [8211] @ ustr ''21.38] UNKNOWN: bye'']"
proof -
  have s1: "find_speaker 0 4 [(ustr ''S1'', [(0, 5)]), (ustr ''S2'', [(5, 10)])] = ustr ''S1''"
    by (simp add: find_speaker_def)
  have s2: "find_speaker (161 / 8) (171 / 8) [(ustr ''S1'', [(0, 5)]), (ustr ''S2'', [(5, 10)])]
      = UNKNOWN"
    by (simp add: find_speaker_def)
  have ne: "UNKNOWN \<noteq> ustr ''S1''" by (simp add: UNKNOWN_def ustr_def)
  show ?thesis
    using fusion_one_line_per_utterance
      [of "[\<lparr>c_start = 0, c_end = 4, c_text = ustr ''hi''\<rparr>,
            \<lparr>c_start = 20.125, c_end = 21.375, c_text = ustr ''bye''\<rparr>]"
          "[(ustr ''S1'', [(0, 5)]), (ustr ''S2'', [(5, 10)])]"
          "[(ustr ''S1'', ustr ''Alice'')]" 0]
    by (simp add: s1 s2 ne format_2f_examples) (simp add: ustr_def UNKNOWN_def)
qed

subsection \<open>Properties of diarization parsing\<close>

text \<open>The fields of a record, and the records with the eight fields that are required.\<close>

definition fields :: "ustr \<Rightarrow> ustr list" where
  "fields line = py_split (py_strip line)"

definition rttm_valid :: "ustr \<Rightarrow> bool" where
  "rttm_valid line \<longleftrightarrow> 8 \<le> length (fields line)"

text \<open>\<open>rttm_numeric\<close>: \<^verbatim>\<open>float\<close> accepts the start and the duration of the record.\<close>

definition rttm_numeric :: "(ustr \<Rightarrow> error + real) \<Rightarrow> ustr \<Rightarrow> bool" where
  "rttm_numeric py_float line \<longleftrightarrow>
     (\<exists>start. py_float (fields line ! 3) = Inr start) \<and> (\<exists>dur. py_float (fields line ! 4) = Inr dur)"


lemma defaultdict_append_nonempty: "defaultdict_append d k v \<noteq> []"
  by (cases d) (auto split: if_splits)




lemma load_rttm_lines_step:
  "load_rttm_lines py_float float_add (line # lines) segs =
     (if \<not> rttm_valid line then load_rttm_lines py_float float_add lines segs
      else case py_float (fields line ! 3) of
             Inl err \<Rightarrow> Inl err
           | Inr start \<Rightarrow>
               (case py_float (fields line ! 4) of
                  Inl err \<Rightarrow> Inl err
                | Inr dur \<Rightarrow>
                    load_rttm_lines py_float float_add lines
                      (defaultdict_append segs (fields line ! 7) (start, float_add start dur))))"
  unfolding rttm_valid_def fields_def by (simp add: Let_def not_le)

declare load_rttm_lines.simps(2) [simp del]

lemma load_rttm_lines_numeric:
  assumes "\<forall>line \<in> set lines. rttm_valid line \<longrightarrow> rttm_numeric py_float line"
  shows "\<exists>segs'. load_rttm_lines py_float float_add lines segs = Inr segs'
           \<and> (segs' = [] \<longleftrightarrow> segs = [] \<and> (\<forall>line \<in> set lines. \<not> rttm_valid line))"
  using assms
proof (induction lines arbitrary: segs)
  case Nil
  show ?case by simp
next
  case (Cons line lines)
  have rest: "\<forall>l \<in> set lines. rttm_valid l \<longrightarrow> rttm_numeric py_float l"
    using Cons.prems by simp
  show ?case
  proof (cases "rttm_valid line")
    case False
    then show ?thesis
      using Cons.IH [OF rest, of segs] by (simp add: load_rttm_lines_step)
  next
    case True
    then obtain start dur where f: "py_float (fields line ! 3) = Inr start"
      "py_float (fields line ! 4) = Inr dur"
      using Cons.prems by (auto simp: rttm_numeric_def)
    show ?thesis
      using Cons.IH [OF rest, of "defaultdict_append segs (fields line ! 7) (start, float_add start dur)"]
        True
      by (auto simp: load_rttm_lines_step f defaultdict_append_nonempty)
  qed
qed

lemma load_rttm_lines_raises:
  assumes "\<exists>line \<in> set lines. rttm_valid line \<and> \<not> rttm_numeric py_float line"
  shows "\<exists>err. load_rttm_lines py_float float_add lines segs = Inl err"
  using assms
proof (induction lines arbitrary: segs)
  case Nil
  then show ?case by simp
next
  case (Cons line lines)
  show ?case
  proof (cases "rttm_valid line \<and> \<not> rttm_numeric py_float line")
    case True
    then show ?thesis
      by (auto simp: load_rttm_lines_step rttm_numeric_def split: sum.splits)
  next
    case False
    then have "\<exists>l \<in> set lines. rttm_valid l \<and> \<not> rttm_numeric py_float l"
      using Cons.prems by auto
    from Cons.IH [OF this] show ?thesis
      by (auto simp: load_rttm_lines_step split: sum.splits)
  qed
qed

lemma load_rttm_lines_error:
  "load_rttm_lines py_float float_add lines segs = Inl err \<Longrightarrow>
     \<exists>line \<in> set lines. rttm_valid line
        \<and> (py_float (fields line ! 3) = Inl err \<or> py_float (fields line ! 4) = Inl err)"
proof (induction lines arbitrary: segs)
  case Nil
  then show ?case by simp
next
  case (Cons line lines)
  show ?case
  proof (cases "rttm_valid line")
    case False
    then show ?thesis
      using Cons by (auto simp: load_rttm_lines_step)
  next
    case True
    show ?thesis
    proof (cases "py_float (fields line ! 3)")
      case (Inl e)
      then show ?thesis using Cons.prems True by (auto simp: load_rttm_lines_step)
    next
      case start: (Inr start)
      show ?thesis
      proof (cases "py_float (fields line ! 4)")
        case (Inl e)
        then show ?thesis using Cons.prems True start by (auto simp: load_rttm_lines_step)
      next
        case (Inr dur)
        then have "load_rttm_lines py_float float_add lines
            (defaultdict_append segs (fields line ! 7) (start, float_add start dur)) = Inl err"
          using Cons.prems True start by (simp add: load_rttm_lines_step)
        from Cons.IH [OF this] show ?thesis by auto
      qed
    qed
  qed
qed


subsection \<open>Properties of the pattern matcher\<close>


definition bindm :: "(ustr list \<times> ustr) list \<Rightarrow> (ustr \<Rightarrow> (ustr list \<times> ustr) list) \<Rightarrow> (ustr list \<times> ustr) list" where
  "bindm xs f = concat (map (\<lambda>(g1, r1). map (\<lambda>(g2, r2). (g1 @ g2, r2)) (f r1)) xs)"

lemma rx_match_seq: "rx_match (RSeq a b) s = bindm (rx_match a s) (rx_match b)"
  by (simp add: bindm_def)

lemma bindm_Nil: "bindm [] f = []"
  by (simp add: bindm_def)

lemma bindm_Cons: "bindm ((g, r) # xs) f = map (\<lambda>(g2, r2). (g @ g2, r2)) (f r) @ bindm xs f"
  by (simp add: bindm_def)

lemma bindm_append: "bindm (xs @ ys) f = bindm xs f @ bindm ys f"
  by (simp add: bindm_def)

lemma bindm_map: "bindm (map (\<lambda>(g2, r2). (g @ g2, r2)) ys) h = map (\<lambda>(g3, r3). (g @ g3, r3)) (bindm ys h)"
  by (induction ys) (auto simp: bindm_Nil bindm_Cons bindm_append)

lemma bindm_assoc: "bindm (bindm xs f) h = bindm xs (\<lambda>r. bindm (f r) h)"
proof (induction xs)
  case Nil
  show ?case by (simp add: bindm_Nil)
next
  case (Cons a xs)
  obtain g r where a: "a = (g, r)" by (cases a)
  show ?case
    by (simp add: a bindm_Cons bindm_append bindm_map Cons.IH)
qed

lemma rx_match_seq_assoc: "rx_match (RSeq a (RSeq b c)) = rx_match (RSeq (RSeq a b) c)"
proof
  fix s
  have "rx_match (RSeq b c) = (\<lambda>r. bindm (rx_match b r) (rx_match c))"
    by (rule ext) (rule rx_match_seq)
  then show "rx_match (RSeq a (RSeq b c)) s = rx_match (RSeq (RSeq a b) c) s"
    by (simp only: rx_match_seq bindm_assoc)
qed

lemma bindm_cong: "(\<And>g r. (g, r) \<in> set xs \<Longrightarrow> f r = h r) \<Longrightarrow> bindm xs f = bindm xs h"
  unfolding bindm_def by (intro arg_cong [where f = concat] map_cong) auto





definition pattern_pre :: rx where
  "pattern_pre = RSeq (RSeq (RSeq (RLit (ustr ''['')) (RStar Space)) (RGrp number)) (RStar Space)"

definition pattern_rest :: rx where
  "pattern_rest =
     RSeq (RStar Space)
    (RSeq (RGrp number)
    (RSeq (RStar Space)
    (RSeq (RLit (ustr '']''))
    (RSeq (RStar Space)
          (RGrp (RPlus Dot))))))"

lemma pattern_pre_rest: "rx_match pattern = rx_match (RSeq pattern_pre (RSeq arrow pattern_rest))"
  unfolding pattern_def pattern_pre_def pattern_rest_def
  by (simp only: rx_match_seq_assoc)




lemma star_rests_suffix: "r \<in> set (star_rests c s) \<Longrightarrow> suffix r s"
  by (induction s) (auto simp: suffix_Cons split: if_splits)

lemma rx_match_suffix: "(g, r) \<in> set (rx_match p s) \<Longrightarrow> suffix r s"
proof (induction p arbitrary: g r s)
  case (RLit l)
  then show ?case by (auto simp: suffix_drop split: if_splits)
next
  case (RStar c)
  then show ?case by (auto dest: star_rests_suffix)
next
  case (RPlus c)
  then show ?case
    by (auto simp: suffix_Cons dest: star_rests_suffix split: list.splits if_splits)
next
  case (ROpt ch)
  then show ?case by (auto simp: suffix_Cons split: list.splits if_splits)
next
  case (RAlt a b)
  then show ?case by auto
next
  case (RSeq a b)
  then obtain g1 r1 g2 where "(g1, r1) \<in> set (rx_match a s)" "(g2, r) \<in> set (rx_match b r1)"
    by auto
  then have "suffix r1 s" "suffix r r1" using RSeq.IH by blast+
  then show ?case using suffix_order.trans by blast
next
  case (RGrp a)
  then show ?case by auto
qed




fun avoids :: "nat \<Rightarrow> rx \<Rightarrow> bool" where
  "avoids x (RLit l) \<longleftrightarrow> x \<notin> set l"
| "avoids x (RStar c) \<longleftrightarrow> \<not> cls_match c x"
| "avoids x (RPlus c) \<longleftrightarrow> \<not> cls_match c x"
| "avoids x (ROpt ch) \<longleftrightarrow> x \<noteq> ch"
| "avoids x (RAlt a b) \<longleftrightarrow> avoids x a \<and> avoids x b"
| "avoids x (RSeq a b) \<longleftrightarrow> avoids x a \<and> avoids x b"
| "avoids x (RGrp a) \<longleftrightarrow> avoids x a"

lemma star_rests_local:
  "\<not> cls_match c x \<Longrightarrow> star_rests c (s @ x # t) = map (\<lambda>r. r @ x # t) (star_rests c s)"
  by (induction s) auto

lemma lit_local:
  assumes "x \<notin> set l"
  shows "take (length l) (s @ x # t) = l \<longleftrightarrow> take (length l) s = l"
proof (cases "length l \<le> length s")
  case True
  then show ?thesis by simp
next
  case False
  then obtain n where "length l - length s = Suc n"
    by (cases "length l - length s") auto
  then have "x \<in> set (take (length l) (s @ x # t))" by simp
  then have 1: "take (length l) (s @ x # t) \<noteq> l" using assms by metis
  have 2: "take (length l) s \<noteq> l"
  proof
    assume "take (length l) s = l"
    then have "length (take (length l) s) = length l" by simp
    then show False using False by simp
  qed
  from 1 2 show ?thesis by blast
qed

lemma rx_match_local:
  "avoids x p \<Longrightarrow>
     rx_match p (s @ x # t) = map (\<lambda>(g, r). (g, r @ x # t)) (rx_match p s)"
proof (induction p arbitrary: s)
  case (RLit l)
  then have "x \<notin> set l" by simp
  from lit_local [OF this, of s t] show ?case
    by (auto dest: arg_cong [where f = length])
next
  case (RStar c)
  then show ?case by (simp add: star_rests_local comp_def)
next
  case (RPlus c)
  then show ?case by (cases s) (auto simp: star_rests_local comp_def)
next
  case (ROpt ch)
  then show ?case by (cases s) auto
next
  case (RAlt a b)
  then show ?case by simp
next
  case (RSeq a b)
  have b: "rx_match b (r @ x # t) = map (\<lambda>(g, r). (g, r @ x # t)) (rx_match b r)" for r
    using RSeq by simp
  have a: "rx_match a (s @ x # t) = map (\<lambda>(g, r). (g, r @ x # t)) (rx_match a s)"
    using RSeq by simp
  show ?case
    unfolding rx_match_seq a
    by (induction "rx_match a s") (auto simp: bindm_def b comp_def case_prod_beta map_concat)
next
  case (RGrp a)
  have len: "(g, r) \<in> set (rx_match a s) \<Longrightarrow> length r \<le> length s" for g r
    using rx_match_suffix [of g r a s] by (auto simp: suffix_def)
  have "rx_match a (s @ x # t) = map (\<lambda>(g, r). (g, r @ x # t)) (rx_match a s)"
    using RGrp by simp
  then show ?case
    using len by (auto simp: comp_def case_prod_beta)
qed









lemma load_transcript_lines_map_filter:
  "load_transcript_lines lines chunks = chunks @ List.map_filter parse_chunk lines"
  by (induction lines arbitrary: chunks) (auto split: option.splits)


text \<open>The four separators: the arrow U+2192, \<^verbatim>\<open>->\<close>, the en dash U+2013 and \<^verbatim>\<open>-\<close>.\<close>

definition arrows :: "ustr list" where
  "arrows = [[8594], ustr ''->'', [8211], ustr ''-'']"

lemma not_space_arrow_chars: "\<not> py_isspace 45" "\<not> py_isspace 8594" "\<not> py_isspace 8211"
  "\<not> py_isspace 62"
  by (simp_all add: py_isspace_def)

lemma not_digit_arrow_chars: "\<not> py_isdecimal 45" "\<not> py_isdecimal 8594" "\<not> py_isdecimal 8211"
  "\<not> py_isdecimal 62"
  by (simp_all add: py_isdecimal_def digit_zeros_def)

lemma avoids_pattern_pre:
  "x \<in> {45, 8594, 8211} \<Longrightarrow> avoids x pattern_pre"
  by (auto simp: pattern_pre_def number_def ustr_def not_space_arrow_chars not_digit_arrow_chars)

lemma arrow_no_match:
  "h \<notin> {45, 8594, 8211} \<Longrightarrow> rx_match arrow (h # t) = []"
  by (simp add: arrow_def ustr_def)

lemma pattern_rest_gt: "rx_match pattern_rest (62 # t) = []"
  by (simp add: pattern_rest_def number_def not_space_arrow_chars not_digit_arrow_chars)

lemma bindm_single: "bindm [([], r)] f = f r"
  by (simp add: bindm_def)

lemma arrow_then_rest:
  assumes "g \<in> set arrows" and "q = [] \<or> hd q \<noteq> 62"
  shows "bindm (rx_match arrow (g @ q)) (rx_match pattern_rest) = rx_match pattern_rest q"
proof -
  have q: "take 1 q \<noteq> [62]" using assms(2) by (cases q) auto
  consider "g = [8594]" | "g = [45, 62]" | "g = [8211]" | "g = [45]"
    using assms(1) by (auto simp: arrows_def ustr_def)
  then show ?thesis
  proof cases
    case 1
    then show ?thesis by (simp add: arrow_def ustr_def bindm_single)
  next
    case 2
    then have "rx_match arrow (g @ q) = [([], q), ([], 62 # q)]"
      by (simp add: arrow_def ustr_def)
    then show ?thesis
      by (simp add: bindm_Cons bindm_Nil pattern_rest_gt)
  next
    case 3
    then show ?thesis by (simp add: arrow_def ustr_def bindm_single)
  next
    case 4
    then have "rx_match arrow (g @ q) = [([], q)]"
      using q by (simp add: arrow_def ustr_def)
    then show ?thesis by (simp add: bindm_single)
  qed
qed

lemma bindm_map_snd: "bindm (map (\<lambda>(g, r). (g, k r)) xs) f = bindm xs (\<lambda>r. f (k r))"
  by (induction xs) (auto simp: bindm_Nil bindm_Cons)

lemma pattern_at_arrow:
  assumes "g \<in> set arrows" and "set p \<inter> {45, 8594, 8211} = {}" and "q = [] \<or> hd q \<noteq> 62"
  shows "rx_match pattern (p @ g @ q) =
     bindm (rx_match pattern_pre p) (\<lambda>r1. if r1 = [] then rx_match pattern_rest q else [])"
proof -
  obtain x g' where g: "g = x # g'" and x: "x \<in> {45, 8594, 8211}"
    using assms(1) by (auto simp: arrows_def ustr_def)
  have loc: "rx_match pattern_pre (p @ x # g' @ q) =
      map (\<lambda>(gs, r). (gs, r @ x # g' @ q)) (rx_match pattern_pre p)"
    using avoids_pattern_pre [OF x] by (rule rx_match_local)
  have "rx_match pattern (p @ g @ q) =
      bindm (rx_match pattern_pre p) (\<lambda>r. rx_match (RSeq arrow pattern_rest) (r @ g @ q))"
    unfolding pattern_pre_rest rx_match_seq [of pattern_pre] g
    by (simp add: loc bindm_map_snd del: rx_match.simps)
  also have "\<dots> = bindm (rx_match pattern_pre p)
      (\<lambda>r1. if r1 = [] then rx_match pattern_rest q else [])"
  proof (rule bindm_cong)
    fix gs r
    assume "(gs, r) \<in> set (rx_match pattern_pre p)"
    then have "suffix r p" by (rule rx_match_suffix)
    then have sub: "set r \<subseteq> set p" by (auto simp: suffix_def)
    show "rx_match (RSeq arrow pattern_rest) (r @ g @ q) =
        (if r = [] then rx_match pattern_rest q else [])"
    proof (cases r)
      case Nil
      then show ?thesis
        using arrow_then_rest [OF assms(1,3)] by (simp add: rx_match_seq del: rx_match.simps)
    next
      case (Cons h t)
      then have "h \<notin> {45, 8594, 8211}" using sub assms(2) by auto
      then have "rx_match arrow (h # t @ g @ q) = []" by (rule arrow_no_match)
      then show ?thesis
        by (simp add: Cons rx_match_seq bindm_Nil del: rx_match.simps)
    qed
  qed
  finally show ?thesis .
qed

lemma py_strip_around:
  assumes "g \<noteq> []" and "\<not> py_isspace (hd g)" and "\<not> py_isspace (last g)"
  shows "py_strip (pre @ g @ post) =
     dropWhile py_isspace pre @ g @ rev (dropWhile py_isspace (rev post))"
proof -
  have front: "dropWhile py_isspace (xs @ g @ ys) = dropWhile py_isspace xs @ g @ ys" for xs ys
  proof (cases "\<forall>x \<in> set xs. py_isspace x")
    case True
    then have "dropWhile py_isspace xs = []" by simp
    moreover have "dropWhile py_isspace (g @ ys) = g @ ys"
      using assms(1,2) by (cases g) auto
    ultimately show ?thesis using True by (simp add: dropWhile_append)
  next
    case False
    then show ?thesis by (auto simp: dropWhile_append)
  qed
  have rear: "dropWhile py_isspace (rev post @ rev g @ zs) =
      dropWhile py_isspace (rev post) @ rev g @ zs" for zs
  proof (cases "\<forall>x \<in> set (rev post). py_isspace x")
    case True
    then have "dropWhile py_isspace (rev post) = []" by simp
    moreover have "dropWhile py_isspace (rev g @ zs) = rev g @ zs"
      using assms(1,3) by (cases g rule: rev_cases) auto
    ultimately show ?thesis using True by (simp add: dropWhile_append)
  next
    case False
    then show ?thesis by (auto simp: dropWhile_append)
  qed
  show ?thesis
    by (simp add: py_strip_def front rear)
qed

lemma rstrip_head:
  assumes "post = [] \<or> hd post \<noteq> c"
  shows "rev (dropWhile P (rev post)) = [] \<or> hd (rev (dropWhile P (rev post))) \<noteq> c"
proof -
  have "rev post = takeWhile P (rev post) @ dropWhile P (rev post)" by simp
  then have "post = rev (dropWhile P (rev post)) @ rev (takeWhile P (rev post))"
    by (metis rev_append rev_rev_ident)
  then obtain z where z: "post = rev (dropWhile P (rev post)) @ z" by blast
  show ?thesis
  proof (cases "rev (dropWhile P (rev post))")
    case Nil
    then show ?thesis by simp
  next
    case (Cons a l)
    then have "post = (a # l) @ z" using z by simp
    then have "post \<noteq> []" and "hd post = a" by simp_all
    then show ?thesis using assms Cons by simp
  qed
qed

subsection \<open>The separators are interchangeable\<close>

text \<open>
  Claim C8. Two transcript lines that differ only in the separator of the two times,
  \<open>pre @ g1 @ post\<close> and \<open>pre @ g2 @ post\<close> with \<open>g1\<close> and \<open>g2\<close> among the four separators,
  parse to the same record or are both skipped, and a transcript parses to the same
  records with either line. That the two lines differ in the separator only is made
  precise as follows: no character of a separator occurs before it, and the text after
  it does not start with \<^verbatim>\<open>>\<close>, which would turn \<open>-\<close> into \<^verbatim>\<open>->\<close>.
\<close>

theorem transcript_arrow_equivalence:
  assumes "g1 \<in> set arrows" and "g2 \<in> set arrows"
    and "set pre \<inter> {45, 8594, 8211} = {}" and "post = [] \<or> hd post \<noteq> 62"
  shows "parse_chunk (pre @ g1 @ post) = parse_chunk (pre @ g2 @ post)
    \<and> load_transcript (before @ [pre @ g1 @ post] @ after)
        = load_transcript (before @ [pre @ g2 @ post] @ after)"
proof -
  define p where "p = dropWhile py_isspace pre"
  define q where "q = rev (dropWhile py_isspace (rev post))"
  have p: "set p \<inter> {45, 8594, 8211} = {}"
    using assms(3) set_dropWhileD [of _ py_isspace pre] unfolding p_def by blast
  have q: "q = [] \<or> hd q \<noteq> 62"
    unfolding q_def using assms(4) by (rule rstrip_head)
  have strip: "py_strip (pre @ g @ post) = p @ g @ q" if "g \<in> set arrows" for g
    unfolding p_def q_def
    using that by (intro py_strip_around) (auto simp: arrows_def ustr_def not_space_arrow_chars)
  have "rx_match pattern (py_strip (pre @ g1 @ post)) = rx_match pattern (py_strip (pre @ g2 @ post))"
    by (simp add: strip assms(1,2) pattern_at_arrow [OF _ p q])
  then have same: "parse_chunk (pre @ g1 @ post) = parse_chunk (pre @ g2 @ post)"
    by (simp add: parse_chunk_def re_match_def)
  then have "load_transcript (before @ [pre @ g1 @ post] @ after)
        = load_transcript (before @ [pre @ g2 @ post] @ after)"
    by (simp add: load_transcript_def load_transcript_lines_map_filter List.map_filter_def)
  with same show ?thesis by simp
qed

lemmas char_defs = py_isspace_def py_isdecimal_def digit_zeros_def digit_value_def ustr_def

lemma parse_chunk_example_arrow:
  "parse_chunk (ustr ''[0 '' @ [8594] @ ustr '' 4.5] hi'')
     = Some \<lparr>c_start = 0, c_end = 9 / 2, c_text = ustr ''hi''\<rparr>"
  by (simp add: parse_chunk_def py_strip_def re_match_def pattern_def number_def arrow_def
      float_of_number_def digits_value_def char_defs)

theorem transcript_arrow_equivalence_witness:
  "parse_chunk (ustr ''[0 '' @ ustr ''-'' @ ustr '' 4.5] hi'')
     = Some \<lparr>c_start = 0, c_end = 9 / 2, c_text = ustr ''hi''\<rparr>
   \<and> parse_chunk (ustr ''[0 '' @ ustr ''->'' @ ustr '' 4.5] hi'')
     = Some \<lparr>c_start = 0, c_end = 9 / 2, c_text = ustr ''hi''\<rparr>
   \<and> parse_chunk (ustr ''[0 '' @ [8211] @ ustr '' 4.5] hi'')
     = Some \<lparr>c_start = 0, c_end = 9 / 2, c_text = ustr ''hi''\<rparr>"
proof -
  have a: "[8594] \<in> set arrows" "ustr ''-'' \<in> set arrows" "ustr ''->'' \<in> set arrows"
    "[8211] \<in> set arrows"
    by (simp_all add: arrows_def)
  have pre: "set (ustr ''[0 '') \<inter> {45, 8594, 8211} = {}"
    by (simp add: ustr_def)
  have post: "ustr '' 4.5] hi'' = [] \<or> hd (ustr '' 4.5] hi'') \<noteq> 62"
    by (simp add: ustr_def)
  from transcript_arrow_equivalence [OF a(1) a(2) pre post]
    transcript_arrow_equivalence [OF a(1) a(3) pre post]
    transcript_arrow_equivalence [OF a(1) a(4) pre post]
    parse_chunk_example_arrow
  show ?thesis by simp
qed

subsection \<open>What the parsers guarantee\<close>

text \<open>
  An instance of the parameter \<open>py_float\<close> for concrete inputs: \<^verbatim>\<open>float\<close> on an optional
  sign followed by digits with an optional fraction, where it returns the number
  written, and \<^verbatim>\<open>ValueError\<close> elsewhere. It agrees with \<^verbatim>\<open>float\<close> on the strings it is
  applied to below.
\<close>

definition float_plain :: "ustr \<Rightarrow> error + real" where
  "float_plain s =
     (let sgn = (if take 1 s = ustr ''-'' then - 1 else 1);
          body = (if take 1 s = ustr ''-'' \<or> take 1 s = ustr ''+'' then drop 1 s else s)
      in if list_ex (\<lambda>(g, r). r = []) (rx_match number body)
         then Inr (sgn * float_of_number body) else Inl ValueError)"

lemma float_plain_examples:
  "float_plain (ustr ''x'') = Inl ValueError"
  "float_plain (ustr ''0.5'') = Inr (1 / 2)"
  "float_plain (ustr ''2.0'') = Inr 2"
  "float_plain (ustr ''-5.0'') = Inr (- 5)"
  "float_plain (ustr ''-2.0'') = Inr (- 2)"
  by (simp_all add: float_plain_def number_def float_of_number_def digits_value_def char_defs)

lemma fields_examples:
  "fields (ustr ''SPEAKER f 1 0.5 2.0 <NA> <NA> A'')
     = [ustr ''SPEAKER'', ustr ''f'', ustr ''1'', ustr ''0.5'', ustr ''2.0'', ustr ''<NA>'',
        ustr ''<NA>'', ustr ''A'']"
  "fields (ustr ''SPEAKER f 1 x 2.0 <NA> <NA> B'')
     = [ustr ''SPEAKER'', ustr ''f'', ustr ''1'', ustr ''x'', ustr ''2.0'', ustr ''<NA>'',
        ustr ''<NA>'', ustr ''B'']"
  "fields (ustr ''SPEAKER f 1 -5.0 -2.0 <NA> <NA> A'')
     = [ustr ''SPEAKER'', ustr ''f'', ustr ''1'', ustr ''-5.0'', ustr ''-2.0'', ustr ''<NA>'',
        ustr ''<NA>'', ustr ''A'']"
  by (simp_all add: fields_def py_split_def py_strip_def py_isspace_def ustr_def)


lemma load_rttm_bad_number:
  "load_rttm float_plain (+)
     [ustr ''SPEAKER f 1 0.5 2.0 <NA> <NA> A'', ustr ''SPEAKER f 1 x 2.0 <NA> <NA> B'']
     = Inl ValueError"
  by (simp add: load_rttm_def load_rttm_lines_step rttm_valid_def fields_examples
      float_plain_examples)








subsection \<open>When the run aborts\<close>

lemma load_transcript_eq:
  "load_transcript tlines =
     (if list_all (\<lambda>line. parse_chunk line = None) tlines
      then Inl (SystemExit ''No transcript segments parsed'')
      else Inr (List.map_filter parse_chunk tlines))"
proof -
  have "List.map_filter parse_chunk tlines = [] \<longleftrightarrow> list_all (\<lambda>line. parse_chunk line = None) tlines"
    by (induction tlines) (auto split: option.splits)
  then show ?thesis
    by (simp add: load_transcript_def load_transcript_lines_map_filter)
qed

text \<open>
  Claim C7, as the code has it. Diarization parsing ends the run through \<^verbatim>\<open>fail\<close>, with
  exit status 1, exactly when no line has eight fields or more, provided \<^verbatim>\<open>float\<close>
  accepts the start and the duration of every line that has; it returns the segments
  otherwise. When \<^verbatim>\<open>float\<close> rejects the start or the duration of such a line, parsing
  ends with that exception, whatever records were read before. Transcript parsing ends
  the run exactly when no line matches the pattern, and returns the matching lines'
  records otherwise. A sample rate other than 16000 ends the run; with the rate 16000
  and both inputs parsed, the run goes on to enrollment resolution.
\<close>

theorem run_aborts_on_preconditions:
  "((\<forall>line \<in> set lines. rttm_valid line \<longrightarrow> rttm_numeric py_float line) \<longrightarrow>
      (if list_all (\<lambda>line. \<not> rttm_valid line) lines
       then load_rttm py_float float_add lines = Inl (SystemExit ''No diarization segments found'')
       else \<exists>segs. load_rttm py_float float_add lines = Inr segs \<and> segs \<noteq> []))
   \<and> ((\<exists>line \<in> set lines. rttm_valid line \<and> \<not> rttm_numeric py_float line) \<longrightarrow>
      (\<exists>err. load_rttm py_float float_add lines = Inl err
         \<and> (\<exists>line \<in> set lines. rttm_valid line
               \<and> (py_float (fields line ! 3) = Inl err \<or> py_float (fields line ! 4) = Inl err))))
   \<and> load_transcript tlines =
       (if list_all (\<lambda>line. parse_chunk line = None) tlines
        then Inl (SystemExit ''No transcript segments parsed'')
        else Inr (List.map_filter parse_chunk tlines))
   \<and> (sr \<noteq> SAMPLE_RATE \<longrightarrow>
        (\<exists>err. main py_float float_add classifier cosine SPEAKERS lines tlines audio sr = Inl err))
   \<and> (load_rttm py_float float_add lines = Inr diar \<and> load_transcript tlines = Inr transcript \<longrightarrow>
        main py_float float_add classifier cosine SPEAKERS lines tlines audio SAMPLE_RATE =
          (case build_speaker_name_map classifier cosine SPEAKERS audio diar of
             Inl err \<Rightarrow> Inl err
           | Inr speaker_name_map \<Rightarrow> Inr (main_lines transcript diar speaker_name_map [])))"
proof -
  have numeric: "(\<forall>line \<in> set lines. rttm_valid line \<longrightarrow> rttm_numeric py_float line) \<longrightarrow>
      (if list_all (\<lambda>line. \<not> rttm_valid line) lines
       then load_rttm py_float float_add lines = Inl (SystemExit ''No diarization segments found'')
       else \<exists>segs. load_rttm py_float float_add lines = Inr segs \<and> segs \<noteq> [])"
  proof
    assume "\<forall>line \<in> set lines. rttm_valid line \<longrightarrow> rttm_numeric py_float line"
    from load_rttm_lines_numeric [OF this, where segs = "[]"] obtain segs where
      segs: "load_rttm_lines py_float float_add lines [] = Inr segs"
        "segs = [] \<longleftrightarrow> (\<forall>line \<in> set lines. \<not> rttm_valid line)"
      by auto
    show "if list_all (\<lambda>line. \<not> rttm_valid line) lines
       then load_rttm py_float float_add lines = Inl (SystemExit ''No diarization segments found'')
       else \<exists>segs. load_rttm py_float float_add lines = Inr segs \<and> segs \<noteq> []"
      using segs by (simp add: load_rttm_def list_all_iff)
  qed
  have raises: "(\<exists>line \<in> set lines. rttm_valid line \<and> \<not> rttm_numeric py_float line) \<longrightarrow>
      (\<exists>err. load_rttm py_float float_add lines = Inl err
         \<and> (\<exists>line \<in> set lines. rttm_valid line
               \<and> (py_float (fields line ! 3) = Inl err \<or> py_float (fields line ! 4) = Inl err)))"
  proof
    assume "\<exists>line \<in> set lines. rttm_valid line \<and> \<not> rttm_numeric py_float line"
    from load_rttm_lines_raises [OF this, where segs = "[]"] obtain err where
      err: "load_rttm_lines py_float float_add lines [] = Inl err"
      by blast
    from load_rttm_lines_error [OF this] err
    show "\<exists>err. load_rttm py_float float_add lines = Inl err
         \<and> (\<exists>line \<in> set lines. rttm_valid line
               \<and> (py_float (fields line ! 3) = Inl err \<or> py_float (fields line ! 4) = Inl err))"
      by (auto simp: load_rttm_def)
  qed
  have rate: "sr \<noteq> SAMPLE_RATE \<longrightarrow>
        (\<exists>err. main py_float float_add classifier cosine SPEAKERS lines tlines audio sr = Inl err)"
    by (auto simp: main_def split: sum.splits)
  have goes_on: "load_rttm py_float float_add lines = Inr diar \<and> load_transcript tlines = Inr transcript \<longrightarrow>
        main py_float float_add classifier cosine SPEAKERS lines tlines audio SAMPLE_RATE =
          (case build_speaker_name_map classifier cosine SPEAKERS audio diar of
             Inl err \<Rightarrow> Inl err
           | Inr speaker_name_map \<Rightarrow> Inr (main_lines transcript diar speaker_name_map []))"
    by (simp add: main_def)
  from numeric raises load_transcript_eq [of tlines] rate goes_on show ?thesis by blast
qed

lemma rttm_valid_examples:
  "rttm_valid (ustr ''SPEAKER f 1 0.5 2.0 <NA> <NA> A'')"
  "rttm_valid (ustr ''SPEAKER f 1 x 2.0 <NA> <NA> B'')"
  by (simp_all add: rttm_valid_def fields_examples)

theorem run_aborts_on_preconditions_witness:
  "rttm_valid (ustr ''SPEAKER f 1 0.5 2.0 <NA> <NA> A'')
   \<and> rttm_numeric float_plain (ustr ''SPEAKER f 1 0.5 2.0 <NA> <NA> A'')
   \<and> (\<exists>segs. load_rttm float_plain (+) [ustr ''SPEAKER f 1 0.5 2.0 <NA> <NA> A''] = Inr segs
          \<and> segs \<noteq> [])
   \<and> rttm_valid (ustr ''SPEAKER f 1 x 2.0 <NA> <NA> B'')
   \<and> \<not> rttm_numeric float_plain (ustr ''SPEAKER f 1 x 2.0 <NA> <NA> B'')
   \<and> (\<exists>err. load_rttm float_plain (+)
          [ustr ''SPEAKER f 1 0.5 2.0 <NA> <NA> A'', ustr ''SPEAKER f 1 x 2.0 <NA> <NA> B'']
          = Inl err)
   \<and> (8000 \<noteq> SAMPLE_RATE)
   \<and> (\<exists>err. main float_plain (+) (Inr :: real list \<Rightarrow> error + real list) cosine_distance []
          [ustr ''SPEAKER f 1 0.5 2.0 <NA> <NA> A''] [ustr ''[5 - 3] hi''] [] 8000 = Inl err)"
proof -
  let ?A = "ustr ''SPEAKER f 1 0.5 2.0 <NA> <NA> A''"
  let ?B = "ustr ''SPEAKER f 1 x 2.0 <NA> <NA> B''"
  have "float_plain (fields ?A ! 3) = Inr (1 / 2)" and "float_plain (fields ?A ! 4) = Inr 2"
    by (simp_all add: fields_examples float_plain_examples)
  then have numA: "rttm_numeric float_plain ?A"
    unfolding rttm_numeric_def by blast
  have numB: "\<not> rttm_numeric float_plain ?B"
    by (simp add: rttm_numeric_def fields_examples float_plain_examples)
  have sr: "8000 \<noteq> SAMPLE_RATE" by (simp add: SAMPLE_RATE_def)
  have good: "\<exists>segs. load_rttm float_plain (+) [?A] = Inr segs \<and> segs \<noteq> []"
    using run_aborts_on_preconditions
      [where lines = "[?A]" and py_float = float_plain and float_add = "(+)", THEN conjunct1]
      numA rttm_valid_examples(1)
    by simp
  have bad: "\<exists>err. load_rttm float_plain (+) [?A, ?B] = Inl err"
    using run_aborts_on_preconditions
      [where lines = "[?A, ?B]" and py_float = float_plain and float_add = "(+)", THEN conjunct2, THEN conjunct1]
      numB rttm_valid_examples(2)
    by auto
  have rate: "\<exists>err. main float_plain (+) (Inr :: real list \<Rightarrow> error + real list) cosine_distance []
          [?A] [ustr ''[5 - 3] hi''] [] 8000 = Inl err"
    using run_aborts_on_preconditions
      [where lines = "[?A]" and py_float = float_plain and float_add = "(+)" and tlines = "[ustr ''[5 - 3] hi'']"
         and sr = 8000 and classifier = "Inr :: real list \<Rightarrow> error + real list"
         and cosine = cosine_distance and SPEAKERS = "[]" and audio = "[]",
       THEN conjunct2, THEN conjunct2, THEN conjunct2, THEN conjunct1] sr
    by simp
  from numA numB sr good bad rate rttm_valid_examples show ?thesis by blast
qed

theorem abort_with_valid_records_counterexample:
  "rttm_valid (ustr ''SPEAKER f 1 0.5 2.0 <NA> <NA> A'')
   \<and> rttm_valid (ustr ''SPEAKER f 1 x 2.0 <NA> <NA> B'')
   \<and> load_rttm float_plain (+)
        [ustr ''SPEAKER f 1 0.5 2.0 <NA> <NA> A'', ustr ''SPEAKER f 1 x 2.0 <NA> <NA> B'']
      = Inl ValueError
   \<and> main float_plain (+) (Inr :: real list \<Rightarrow> error + real list) cosine_distance []
        [ustr ''SPEAKER f 1 0.5 2.0 <NA> <NA> A'', ustr ''SPEAKER f 1 x 2.0 <NA> <NA> B'']
        [ustr ''[5 - 3] hi''] [] SAMPLE_RATE
      = Inl ValueError"
  by (simp add: rttm_valid_examples load_rttm_bad_number main_def)

end
